theory Spec2Isabelle
  imports Main "HOL-Library.AList" "HOL-Library.Multiset"
begin

section \<open>Tiny Search Engine: index module and querier\<close>

text \<open>
  A shallow embedding of \<^verbatim>\<open>index.c\<close> (the inverted index and its file format) and of
  \<^verbatim>\<open>querier.c\<close> (tokenizer, syntax check, AND/OR evaluation, ranking).

  Conventions.
  \<^item> A C string is the list of its characters before the terminating NUL.
  \<^item> A C \<^verbatim>\<open>int\<close> is a HOL \<^typ>\<open>int\<close> between \<open>INT_MIN\<close> and \<open>INT_MAX\<close>. The two places where
    the program computes a new \<^verbatim>\<open>int\<close> from its input are written out: the sum in
    \<^verbatim>\<open>callbackAddCounts\<close> and the \<^verbatim>\<open>%d\<close> conversion of \<^verbatim>\<open>fscanf\<close>. Outside the range C leaves
    both undefined; the model gives them the value the program computes on a
    two's-complement machine with the GNU C library (wrap-around). The theorems on sums
    and on the index file assume values in the range, where that choice plays no part.
    The increments inside the counters module and the entry counters of
    \<^verbatim>\<open>printRankedResults\<close> count insertions and entries and are left unbounded.
  \<^item> Memory allocation succeeds. A \<^verbatim>\<open>counters_t*\<close> is an address option, \<open>None\<close> being
    \<^verbatim>\<open>NULL\<close>; the \<^verbatim>\<open>index_t*\<close>, \<^verbatim>\<open>FILE*\<close> and word arguments are never \<^verbatim>\<open>NULL\<close> here.
  \<^item> Only standard output is modelled; diagnostics on standard error are left out.
  \<^item> The C parameter \<^verbatim>\<open>count\<close> is written \<open>cnt\<close> (\<open>count\<close> is a constant of the library).
\<close>

subsection \<open>The types \<^verbatim>\<open>int\<close> and \<^verbatim>\<open>long\<close>\<close>

definition INT_MAX :: int where
  "INT_MAX = 2147483647"

definition INT_MIN :: int where
  "INT_MIN = - 2147483648"

definition LONG_MAX :: int where
  "LONG_MAX = 9223372036854775807"

definition LONG_MIN :: int where
  "LONG_MIN = - 9223372036854775808"

text \<open>
  The \<^verbatim>\<open>int\<close> with the low 32 bits of a value: the value itself when it lies between
  \<open>INT_MIN\<close> and \<open>INT_MAX\<close>, and the wrap-around otherwise.
\<close>

definition int_wrap :: "int \<Rightarrow> int" where
  "int_wrap x = (x + 2147483648) mod 4294967296 - 2147483648"

subsection \<open>Character classes of \<^verbatim>\<open>ctype.h\<close> in the C locale\<close>

definition isspace :: "char \<Rightarrow> bool" where
  "isspace c = (let n = (of_char c :: nat) in n = 32 \<or> (9 \<le> n \<and> n \<le> 13))"

definition isalpha :: "char \<Rightarrow> bool" where
  "isalpha c = (let n = (of_char c :: nat) in (65 \<le> n \<and> n \<le> 90) \<or> (97 \<le> n \<and> n \<le> 122))"

definition isdigit :: "char \<Rightarrow> bool" where
  "isdigit c = (let n = (of_char c :: nat) in 48 \<le> n \<and> n \<le> 57)"

definition tolower :: "char \<Rightarrow> char" where
  "tolower c = (let n = (of_char c :: nat) in if 65 \<le> n \<and> n \<le> 90 then char_of (n + 32) else c)"

subsection \<open>DocCounts: the counters module\<close>

text \<open>
  The counters, hashtable and file modules of the support library are not among the
  sources; the index and the querier only call them. They are modelled from the
  specification's description of DocCounts and InvertedIndex. A DocCounts is the list of
  its (document, count) entries in iteration order.
\<close>

type_synonym counters = "(int \<times> int) list"

text \<open>
  Modelled from the spec: \<^verbatim>\<open>get(docID)\<close> of the missing counters module, "returns the
  count, or 0 if the document is absent".
\<close>

definition dc_get :: "counters \<Rightarrow> int \<Rightarrow> int" where
  "dc_get c key = (case map_of c key of None \<Rightarrow> 0 | Some n \<Rightarrow> n)"

text \<open>
  Modelled from the spec: \<^verbatim>\<open>set(docID, count)\<close> of the missing counters module, "overwrites
  (or creates) an entry with an explicit value; count must be \<ge> 0". A negative count is
  refused and leaves the entries as they are. An existing entry keeps its place in the
  iteration order and a new one is put last; the spec leaves the order open.
\<close>

definition dc_set :: "counters \<Rightarrow> int \<Rightarrow> int \<Rightarrow> counters" where
  "dc_set c key cnt = (if cnt < 0 then c else AList.update key cnt c)"

text \<open>
  Modelled from the spec: \<^verbatim>\<open>increment(docID)\<close> of the missing counters module, "sets count
  to 1 if absent, else adds 1".
\<close>

definition dc_increment :: "counters \<Rightarrow> int \<Rightarrow> counters" where
  "dc_increment c key =
     AList.update key (case map_of c key of None \<Rightarrow> 1 | Some n \<Rightarrow> n + 1) c"

subsection \<open>The store of counters objects\<close>

text \<open>
  Counters objects live in a store, so that sharing between the index and the
  evaluator's accumulators is visible. \<open>cells\<close> maps the address of a live object to its
  entries; \<open>nxt\<close> is the next address the allocator hands out.
\<close>

type_synonym addr = nat

record store =
  cells :: "addr \<Rightarrow> counters option"
  nxt :: addr

definition empty_store :: store where
  "empty_store = \<lparr>cells = (\<lambda>a. None), nxt = 0\<rparr>"

text \<open>The entries behind a pointer; \<^verbatim>\<open>NULL\<close> and a freed object have none.\<close>

definition entries :: "addr option \<Rightarrow> store \<Rightarrow> counters" where
  "entries ctrs h =
     (case ctrs of None \<Rightarrow> [] | Some a \<Rightarrow> (case cells h a of None \<Rightarrow> [] | Some c \<Rightarrow> c))"

text \<open>
  Modelled from the spec: \<^verbatim>\<open>counters_new\<close> of the missing counters module, "created
  empty". The new object gets a fresh address.
\<close>

definition counters_new :: "store \<Rightarrow> addr \<times> store" where
  "counters_new h = (nxt h, h\<lparr>cells := (cells h)(nxt h \<mapsto> []), nxt := Suc (nxt h)\<rparr>)"

text \<open>
  Modelled from the spec: \<^verbatim>\<open>counters_get\<close> of the missing counters module, \<^verbatim>\<open>get\<close> on the
  object behind the pointer. The callers rely on every counters function accepting
  \<^verbatim>\<open>NULL\<close> (\<^verbatim>\<open>processQuery\<close> hands the evaluator's result to \<^verbatim>\<open>counters_iterate\<close> and
  \<^verbatim>\<open>counters_delete\<close> unchecked), so \<^verbatim>\<open>NULL\<close> reads as a DocCounts without entries.
\<close>

definition counters_get :: "addr option \<Rightarrow> int \<Rightarrow> store \<Rightarrow> int" where
  "counters_get ctrs key h = dc_get (entries ctrs h) key"

text \<open>
  Modelled from the spec: \<^verbatim>\<open>counters_set\<close> of the missing counters module, \<^verbatim>\<open>set\<close> on the
  object behind the pointer; nothing happens on \<^verbatim>\<open>NULL\<close>.
\<close>

definition counters_set :: "addr option \<Rightarrow> int \<Rightarrow> int \<Rightarrow> store \<Rightarrow> store" where
  "counters_set ctrs key cnt h =
     (case ctrs of None \<Rightarrow> h
      | Some a \<Rightarrow> (case cells h a of None \<Rightarrow> h
          | Some c \<Rightarrow> h\<lparr>cells := (cells h)(a \<mapsto> dc_set c key cnt)\<rparr>))"

text \<open>
  Modelled from the spec: \<^verbatim>\<open>counters_add\<close> of the missing counters module, \<^verbatim>\<open>increment\<close>
  on the object behind the pointer; nothing happens on \<^verbatim>\<open>NULL\<close>.
\<close>

definition counters_add :: "addr option \<Rightarrow> int \<Rightarrow> store \<Rightarrow> store" where
  "counters_add ctrs key h =
     (case ctrs of None \<Rightarrow> h
      | Some a \<Rightarrow> (case cells h a of None \<Rightarrow> h
          | Some c \<Rightarrow> h\<lparr>cells := (cells h)(a \<mapsto> dc_increment c key)\<rparr>))"

text \<open>
  Modelled from the spec: \<^verbatim>\<open>counters_delete\<close> of the missing counters module, "destroyed
  when its owner is discarded"; nothing happens on \<^verbatim>\<open>NULL\<close>.
\<close>

definition counters_delete :: "addr option \<Rightarrow> store \<Rightarrow> store" where
  "counters_delete ctrs h =
     (case ctrs of None \<Rightarrow> h | Some a \<Rightarrow> h\<lparr>cells := (cells h)(a := None)\<rparr>)"

text \<open>
  Modelled from the spec: \<^verbatim>\<open>counters_iterate\<close> of the missing counters module, "produces a
  lazy, finite sequence of (docID, count) pairs", visiting "entries that were ever
  inserted". The callback \<^verbatim>\<open>itemfunc(arg, key, count)\<close> becomes a function of the object
  \<open>arg\<close> points to, the key, the count and the store, returning that object and the store
  as it leaves them. The entries visited are those present when the iteration starts;
  being lazy, it reads each count when it reaches the entry, from the store as the
  earlier callbacks left it.
\<close>

fun iterate_keys ::
  "addr option \<Rightarrow> ('a \<Rightarrow> int \<Rightarrow> int \<Rightarrow> store \<Rightarrow> 'a \<times> store) \<Rightarrow> int list \<Rightarrow> 'a \<Rightarrow> store \<Rightarrow> 'a \<times> store"
where
  "iterate_keys ctrs itemfunc [] arg h = (arg, h)"
| "iterate_keys ctrs itemfunc (key # keys) arg h =
     (case itemfunc arg key (counters_get ctrs key h) h of
        (arg', h') \<Rightarrow> iterate_keys ctrs itemfunc keys arg' h')"

definition counters_iterate ::
  "addr option \<Rightarrow> 'a \<Rightarrow> ('a \<Rightarrow> int \<Rightarrow> int \<Rightarrow> store \<Rightarrow> 'a \<times> store) \<Rightarrow> store \<Rightarrow> 'a \<times> store"
where
  "counters_iterate ctrs arg itemfunc h =
     iterate_keys ctrs itemfunc (map fst (entries ctrs h)) arg h"

subsection \<open>The index (\<^verbatim>\<open>index.c\<close>)\<close>

text \<open>
  \<^verbatim>\<open>index_t\<close> wraps a hashtable from words to counters pointers. The table is the list of
  its (word, item) pairs in iteration order.
\<close>

type_synonym index = "(string \<times> addr) list"

text \<open>
  Modelled from the spec: \<^verbatim>\<open>hashtable_find\<close> of the missing hashtable module; the index is
  a "mapping from normalized word to an owned DocCounts", and a lookup yields the item
  or "not found".
\<close>

definition hashtable_find :: "(string \<times> 'v) list \<Rightarrow> string \<Rightarrow> 'v option" where
  "hashtable_find ht key = map_of ht key"

text \<open>
  Modelled from the spec: \<^verbatim>\<open>hashtable_insert\<close> of the missing hashtable module; a word has
  one entry, so a key already present is left alone. The new pair is put last; the spec
  leaves the order open.
\<close>

definition hashtable_insert :: "(string \<times> 'v) list \<Rightarrow> string \<Rightarrow> 'v \<Rightarrow> (string \<times> 'v) list" where
  "hashtable_insert ht key item = (if map_of ht key = None then ht @ [(key, item)] else ht)"

text \<open>
  Modelled from the spec: \<^verbatim>\<open>hashtable_iterate\<close> of the missing hashtable module; it calls
  \<^verbatim>\<open>itemfunc(arg, key, item)\<close> once for every pair of the table ("writes every word and its
  DocCounts").
\<close>

fun hashtable_iterate ::
  "(string \<times> 'v) list \<Rightarrow> 'a \<Rightarrow> ('a \<Rightarrow> string \<Rightarrow> 'v \<Rightarrow> store \<Rightarrow> 'a \<times> store) \<Rightarrow> store \<Rightarrow> 'a \<times> store"
where
  "hashtable_iterate [] arg itemfunc h = (arg, h)"
| "hashtable_iterate ((key, item) # ht) arg itemfunc h =
     (case itemfunc arg key item h of (arg', h') \<Rightarrow> hashtable_iterate ht arg' itemfunc h')"

text \<open>
  Modelled from the spec: \<^verbatim>\<open>hashtable_new\<close> of the missing hashtable module, an empty table
  ("creates an empty index ...; capacity is advisory"). The module returns \<^verbatim>\<open>NULL\<close> on an
  error, and a number of slots that is not positive is one; the specification does not
  speak of that case.
\<close>

definition hashtable_new :: "int \<Rightarrow> (string \<times> 'v) list option" where
  "hashtable_new num_slots = (if num_slots \<le> 0 then None else Some [])"

text \<open>
  \<^verbatim>\<open>index_new\<close>: the allocation of the \<^verbatim>\<open>index_t\<close> succeeds; when \<^verbatim>\<open>hashtable_new\<close> returns
  \<^verbatim>\<open>NULL\<close>, so does \<^verbatim>\<open>index_new\<close>.
\<close>

definition index_new :: "int \<Rightarrow> index option" where
  "index_new num_slots = (case hashtable_new num_slots of None \<Rightarrow> None | Some ht \<Rightarrow> Some ht)"

definition index_find :: "index \<Rightarrow> string \<Rightarrow> addr option" where
  "index_find index word = hashtable_find index word"

definition index_insert :: "index \<Rightarrow> string \<Rightarrow> int \<Rightarrow> store \<Rightarrow> index \<times> store" where
  "index_insert index word docID h =
     (if docID < 0 then (index, h)
      else (case hashtable_find index word of
              None \<Rightarrow> (case counters_new h of
                  (ctrs, h1) \<Rightarrow> (hashtable_insert index word ctrs, counters_add (Some ctrs) docID h1))
            | Some ctrs \<Rightarrow> (index, counters_add (Some ctrs) docID h)))"

definition index_set :: "index \<Rightarrow> string \<Rightarrow> int \<Rightarrow> int \<Rightarrow> store \<Rightarrow> index \<times> store" where
  "index_set index word docID cnt h =
     (if docID < 0 \<or> cnt < 0 then (index, h)
      else (case hashtable_find index word of
              None \<Rightarrow> (case counters_new h of
                  (ctrs, h1) \<Rightarrow> (hashtable_insert index word ctrs, counters_set (Some ctrs) docID cnt h1))
            | Some ctrs \<Rightarrow> (index, counters_set (Some ctrs) docID cnt h)))"

subsection \<open>Decimal output and input of \<^verbatim>\<open>stdio.h\<close>\<close>

text \<open>\<^verbatim>\<open>%d\<close> of \<^verbatim>\<open>fprintf\<close>: the decimal digits of the value, after a minus sign if negative.\<close>

definition digit_char :: "nat \<Rightarrow> char" where
  "digit_char n = char_of (48 + n)"

fun digits_of :: "nat \<Rightarrow> string" where
  "digits_of n = (if n < 10 then [digit_char n] else digits_of (n div 10) @ [digit_char (n mod 10)])"

declare digits_of.simps [simp del]

definition printf_d :: "int \<Rightarrow> string" where
  "printf_d i = (if i < 0 then CHR ''-'' # digits_of (nat (- i)) else digits_of (nat i))"

text \<open>
  \<^verbatim>\<open>%s\<close> of \<^verbatim>\<open>fscanf\<close>: skip whitespace, then take the run of non-whitespace characters.
  \<open>None\<close> is the end of the input (\<^verbatim>\<open>fscanf\<close> returns \<^verbatim>\<open>EOF\<close>); otherwise the word and the
  rest of the stream.
\<close>

definition scan_s :: "string \<Rightarrow> (string \<times> string) option" where
  "scan_s fp =
     (let fp1 = dropWhile isspace fp in
      if fp1 = [] then None
      else Some (takeWhile (\<lambda>c. \<not> isspace c) fp1, dropWhile (\<lambda>c. \<not> isspace c) fp1))"

text \<open>
  \<^verbatim>\<open>%d\<close> of \<^verbatim>\<open>fscanf\<close>: skip whitespace, read an optional sign and the run of digits. With
  no digit the conversion fails (\<open>None\<close>); the whitespace and a sign read on the way are
  consumed, the character that is no digit stays in the stream. The digits are converted
  as \<^verbatim>\<open>strtol\<close> converts them, to a \<^verbatim>\<open>long\<close> that stops at \<open>LONG_MAX\<close> and \<open>LONG_MIN\<close>, and
  the \<^verbatim>\<open>long\<close> is stored into the \<^verbatim>\<open>int\<close>. For a number outside the \<^verbatim>\<open>int\<close> C leaves the
  result undefined; the model keeps the low 32 bits, as the GNU C library does.
\<close>

definition digit_val :: "char \<Rightarrow> nat" where
  "digit_val c = of_char c - 48"

definition number_of :: "string \<Rightarrow> nat" where
  "number_of ds = foldl (\<lambda>n c. 10 * n + digit_val c) 0 ds"

definition strtol :: "bool \<Rightarrow> string \<Rightarrow> int" where
  "strtol neg ds =
     (let v = (if neg then - int (number_of ds) else int (number_of ds))
      in if LONG_MAX < v then LONG_MAX else if v < LONG_MIN then LONG_MIN else v)"

definition scan_d :: "string \<Rightarrow> int option \<times> string" where
  "scan_d fp =
     (let fp1 = dropWhile isspace fp;
          neg = (fp1 \<noteq> [] \<and> hd fp1 = CHR ''-'');
          fp2 = (if fp1 \<noteq> [] \<and> (hd fp1 = CHR ''-'' \<or> hd fp1 = CHR ''+'') then tl fp1 else fp1);
          ds = takeWhile isdigit fp2
      in if ds = [] then (None, fp2)
         else (Some (int_wrap (strtol neg ds)), dropWhile isdigit fp2))"

text \<open>
  \<^verbatim>\<open>fscanf(fp, "%d %d", &docID, &count)\<close>: the pair when both conversions succeed (the call
  returns 2), \<open>None\<close> when it returns 0, 1 or \<^verbatim>\<open>EOF\<close>; with it the rest of the stream.
\<close>

definition fscanf_d_d :: "string \<Rightarrow> (int \<times> int) option \<times> string" where
  "fscanf_d_d fp =
     (case scan_d fp of
        (None, fp1) \<Rightarrow> (None, fp1)
      | (Some docID, fp1) \<Rightarrow>
          (case scan_d (dropWhile isspace fp1) of
             (None, fp2) \<Rightarrow> (None, fp2)
           | (Some cnt, fp2) \<Rightarrow> (Some (docID, cnt), fp2)))"

subsection \<open>Saving and loading the index\<close>

text \<open>The stream written by \<^verbatim>\<open>index_save\<close> is the string of the characters written so far.\<close>

definition save_index_counts :: "string \<Rightarrow> int \<Rightarrow> int \<Rightarrow> store \<Rightarrow> string \<times> store" where
  "save_index_counts fp docID cnt h =
     (fp @ '' '' @ printf_d docID @ '' '' @ printf_d cnt, h)"

definition save_index_word :: "string \<Rightarrow> string \<Rightarrow> addr \<Rightarrow> store \<Rightarrow> string \<times> store" where
  "save_index_word fp key item h =
     (case counters_iterate (Some item) (fp @ key) save_index_counts h of
        (fp', h') \<Rightarrow> (fp' @ [CHR 0x0A], h'))"

definition index_save :: "index \<Rightarrow> string \<Rightarrow> store \<Rightarrow> string \<times> store" where
  "index_save index fp h = hashtable_iterate index fp save_index_word h"

text \<open>
  What ends a run of the program other than a return: an exit through \<^verbatim>\<open>mem_assert\<close>, the
  exit of \<^verbatim>\<open>printRankedResults\<close> on a page file it cannot open, and \<^verbatim>\<open>index_load\<close> writing
  past the end of its buffer \<^verbatim>\<open>char word[256]\<close>, which is undefined behaviour. The last value
  marks the overrun; what the program does after it is not modelled.
\<close>

datatype fatal = MemAssertExit | PageFileExit | WordBufferOverrun

text \<open>
  A conversion that succeeds consumes input, and no conversion gives input back; the
  loops of \<^verbatim>\<open>index_load\<close> terminate for that reason.
\<close>

lemma scan_d_le: "length (snd (scan_d fp)) \<le> length fp"
proof -
  define fp1 where "fp1 = dropWhile isspace fp"
  define fp2 where "fp2 = (if fp1 \<noteq> [] \<and> (hd fp1 = CHR ''-'' \<or> hd fp1 = CHR ''+'') then tl fp1 else fp1)"
  have 1: "length fp1 \<le> length fp" by (simp add: fp1_def length_dropWhile_le)
  have 2: "length fp2 \<le> length fp1" by (simp add: fp2_def)
  have 3: "length (dropWhile isdigit fp2) \<le> length fp2" by (simp add: length_dropWhile_le)
  have "snd (scan_d fp) = fp2 \<or> snd (scan_d fp) = dropWhile isdigit fp2"
    by (simp add: scan_d_def Let_def fp1_def fp2_def)
  with 1 2 3 show ?thesis by auto
qed

lemma scan_d_less: "scan_d fp = (Some v, fp') \<Longrightarrow> length fp' < length fp"
proof -
  assume a: "scan_d fp = (Some v, fp')"
  define fp1 where "fp1 = dropWhile isspace fp"
  define fp2 where "fp2 = (if fp1 \<noteq> [] \<and> (hd fp1 = CHR ''-'' \<or> hd fp1 = CHR ''+'') then tl fp1 else fp1)"
  have 1: "length fp1 \<le> length fp" by (simp add: fp1_def length_dropWhile_le)
  have 2: "length fp2 \<le> length fp1" by (simp add: fp2_def)
  from a have ne: "takeWhile isdigit fp2 \<noteq> []" and r: "fp' = dropWhile isdigit fp2"
    by (auto simp: scan_d_def Let_def fp1_def fp2_def split: if_splits)
  have "length (takeWhile isdigit fp2) + length (dropWhile isdigit fp2) = length fp2"
    by (metis length_append takeWhile_dropWhile_id)
  with ne have "length (dropWhile isdigit fp2) < length fp2"
    by (cases "takeWhile isdigit fp2") auto
  with 1 2 r show ?thesis by simp
qed

lemma fscanf_d_d_less: "fscanf_d_d fp = (Some p, fp') \<Longrightarrow> length fp' < length fp"
proof -
  assume a: "fscanf_d_d fp = (Some p, fp')"
  then obtain d fp1 c where 1: "scan_d fp = (Some d, fp1)"
    and 2: "scan_d (dropWhile isspace fp1) = (Some c, fp')"
    unfolding fscanf_d_d_def by (auto split: prod.splits option.splits)
  have "length fp' < length (dropWhile isspace fp1)" using scan_d_less[OF 2] .
  moreover have "length (dropWhile isspace fp1) \<le> length fp1" by (rule length_dropWhile_le)
  moreover have "length fp1 < length fp" using scan_d_less[OF 1] .
  ultimately show ?thesis by simp
qed

lemma fscanf_d_d_le: "length (snd (fscanf_d_d fp)) \<le> length fp"
proof -
  have a: "length (snd (scan_d fp)) \<le> length fp" by (rule scan_d_le)
  have b: "length (snd (scan_d (dropWhile isspace (snd (scan_d fp))))) \<le> length (snd (scan_d fp))"
    using scan_d_le[of "dropWhile isspace (snd (scan_d fp))"]
      length_dropWhile_le[of isspace "snd (scan_d fp)"] by simp
  show ?thesis
    using a b unfolding fscanf_d_d_def
    by (auto split: prod.splits option.splits)
qed

text \<open>
  The inner loop of \<^verbatim>\<open>index_load\<close>: install pairs with \<^verbatim>\<open>index_set\<close> while \<^verbatim>\<open>fscanf\<close>
  returns 2. It returns the index, the store and the rest of the stream.
\<close>

function load_pairs :: "index \<Rightarrow> string \<Rightarrow> string \<Rightarrow> store \<Rightarrow> (index \<times> store) \<times> string" where
  "load_pairs index word fp h =
     (case fscanf_d_d fp of
        (None, fp') \<Rightarrow> ((index, h), fp')
      | (Some (docID, cnt), fp') \<Rightarrow>
           (case index_set index word docID cnt h of
                   (index', h') \<Rightarrow> load_pairs index' word fp' h'))"
  by pat_completeness auto
termination
  by (relation "measure (\<lambda>(index, word, fp, h). length fp)")
     (auto dest: fscanf_d_d_less[OF sym])

lemma load_pairs_le: "length (snd (load_pairs index word fp h)) \<le> length fp"
proof (induction index word fp h rule: load_pairs.induct)
  case (1 index word fp h)
  show ?case
  proof (cases "fscanf_d_d fp")
    case (Pair r fp')
    have le: "length fp' \<le> length fp" using fscanf_d_d_le[of fp] Pair by simp
    show ?thesis
    proof (cases r)
      case None
      with Pair le show ?thesis by simp
    next
      case (Some dc)
      obtain docID cnt where dc: "dc = (docID, cnt)" by (cases dc)
      obtain index' h' where s: "index_set index word docID cnt h = (index', h')"
        by (cases "index_set index word docID cnt h")
      have "length (snd (load_pairs index' word fp' h')) \<le> length fp'"
        using "1.IH" Pair Some dc s by simp
      with Pair Some dc s le show ?thesis by simp
    qed
  qed
qed

lemma scan_s_less: "scan_s fp = Some (word, fp1) \<Longrightarrow> length fp1 < length fp"
proof -
  assume a: "scan_s fp = Some (word, fp1)"
  define s where "s = dropWhile isspace fp"
  from a have ne: "s \<noteq> []" and r: "fp1 = dropWhile (\<lambda>c. \<not> isspace c) s"
    by (auto simp: scan_s_def Let_def s_def split: if_splits)
  have "\<not> isspace (hd s)" using ne hd_dropWhile[of isspace fp] by (simp add: s_def)
  then have "length (dropWhile (\<lambda>c. \<not> isspace c) s) < length s"
    using ne by (cases s) (simp_all add: length_dropWhile_le less_Suc_eq_le)
  moreover have "length s \<le> length fp" by (simp add: s_def length_dropWhile_le)
  ultimately show ?thesis using r by simp
qed

text \<open>
  The outer loop of \<^verbatim>\<open>index_load\<close>: \<^verbatim>\<open>fscanf(fp, "%s", word)\<close> stores the word and its
  terminating NUL in \<^verbatim>\<open>char word[256]\<close> without a field width, so a word of 256 or more
  characters overruns the buffer.
\<close>

function load_words :: "index \<Rightarrow> string \<Rightarrow> store \<Rightarrow> fatal + (index \<times> store)" where
  "load_words index fp h =
     (case scan_s fp of
        None \<Rightarrow> Inr (index, h)
      | Some (word, fp1) \<Rightarrow>
          (if 256 \<le> length word then Inl WordBufferOverrun
           else (case load_pairs index word fp1 h of
                   ((index', h'), fp2) \<Rightarrow> load_words index' fp2 h')))"
  by pat_completeness auto
termination
proof (relation "measure (\<lambda>(index, fp, h). length fp)", goal_cases)
  case 1
  show ?case by simp
next
  case (2 index fp h x2 word fp1 r fp2 index' h')
  have "length fp1 < length fp" using 2 scan_s_less[of fp word fp1] by simp
  moreover have "length fp2 \<le> length fp1"
    using 2 load_pairs_le[of index word fp1 h] by (metis snd_conv)
  ultimately show ?case by simp
qed

declare load_words.simps [simp del]

text \<open>
  Modelled from the spec: \<^verbatim>\<open>file_numLines\<close> of the missing file module, taken by its name
  to be the number of newline characters of the index file; the specification does not
  describe it. \<^verbatim>\<open>index_load\<close> passes it to \<^verbatim>\<open>index_new\<close> as the number of slots.
\<close>

definition file_numLines :: "string \<Rightarrow> int" where
  "file_numLines fp = int (length (filter (\<lambda>c. c = CHR 0x0A) fp))"

text \<open>
  \<^verbatim>\<open>index_load\<close>: on a file without a newline character \<^verbatim>\<open>index_new(0)\<close> returns \<^verbatim>\<open>NULL\<close> and
  \<^verbatim>\<open>mem_assert(index, ...)\<close> ends the program.
\<close>

definition index_load :: "string \<Rightarrow> store \<Rightarrow> fatal + (index \<times> store)" where
  "index_load fp h =
     (case index_new (file_numLines fp) of
        None \<Rightarrow> Inl MemAssertExit
      | Some index \<Rightarrow> load_words index fp h)"

subsection \<open>Querier: syntax\<close>

definition isValidCharacters :: "string \<Rightarrow> bool" where
  "isValidCharacters query = list_all (\<lambda>c. isalpha c \<or> isspace c) query"

text \<open>
  \<^verbatim>\<open>queryTokenize\<close>: \<open>start\<close> is the suffix of the line at the pointer \<^verbatim>\<open>start\<close>, \<open>words\<close> the
  array filled so far (\<^verbatim>\<open>t\<close> is its length). A stored word is the C string at \<^verbatim>\<open>start\<close>
  after the loop has lowercased it and written a NUL over the character that ends it, so
  it is the lowercased run of non-space characters; \<^verbatim>\<open>if (*end) *end++ = '\0'\<close> steps over
  that one character. The last branch is the truncation branch (\<^verbatim>\<open>break\<close> when the array
  is full).
\<close>

function queryTokenize_loop :: "string \<Rightarrow> string list \<Rightarrow> int \<Rightarrow> string list" where
  "queryTokenize_loop start words maxWords =
     (if start = [] then words
      else let start1 = dropWhile isspace start in
        if start1 = [] then words
        else let tok = map tolower (takeWhile (\<lambda>c. \<not> isspace c) start1);
                 end = dropWhile (\<lambda>c. \<not> isspace c) start1 in
             if int (length words) < maxWords
             then queryTokenize_loop (drop 1 end) (words @ [tok]) maxWords
             else words)"
  by pat_completeness auto
termination
proof (relation "measure (\<lambda>(start, words, maxWords). length start)", goal_cases)
  case 1
  show ?case by simp
next
  case (2 start words maxWords start1 tok e)
  have "\<not> isspace (hd start1)"
    using 2 hd_dropWhile[of isspace start] by simp
  moreover have "start1 \<noteq> []" using 2 by simp
  ultimately have "length e < length start1"
    unfolding \<open>e = _\<close>
    by (cases start1) (simp_all add: length_dropWhile_le less_Suc_eq_le)
  moreover have "length start1 \<le> length start"
    using 2 by (simp add: length_dropWhile_le)
  ultimately show ?case by simp
qed

definition queryTokenize :: "string \<Rightarrow> int \<Rightarrow> string list" where
  "queryTokenize query maxWords = queryTokenize_loop query [] maxWords"

text \<open>
  The reference notion of a token, independent of the loop above: scan the line one
  character at a time, \<open>cur\<close> being the token in progress; a whitespace character ends it.
  \<open>ws_tokens q\<close> lists the maximal runs of non-whitespace characters of \<open>q\<close>.
\<close>

fun split_ws :: "string \<Rightarrow> string \<Rightarrow> string list" where
  "split_ws cur [] = (if cur = [] then [] else [cur])"
| "split_ws cur (c # cs) =
     (if isspace c then (if cur = [] then [] else [cur]) @ split_ws [] cs
      else split_ws (cur @ [c]) cs)"

definition ws_tokens :: "string \<Rightarrow> string list" where
  "ws_tokens q = split_ws [] q"


definition is_operator :: "string \<Rightarrow> bool" where
  "is_operator w = (w = ''and'' \<or> w = ''or'')"

text \<open>Step 4 of \<^verbatim>\<open>isValidQuerySyntax\<close>: the loop over \<^verbatim>\<open>words[i - 1]\<close>, \<^verbatim>\<open>words[i]\<close>.\<close>

fun no_consecutive_operators :: "string list \<Rightarrow> bool" where
  "no_consecutive_operators (prev # w # ws) =
     (if is_operator w \<and> is_operator prev then False else no_consecutive_operators (w # ws))"
| "no_consecutive_operators ws = True"

definition isValidQuerySyntax :: "string list \<Rightarrow> bool" where
  "isValidQuerySyntax words =
     (if length words = 0 then False
      else if is_operator (hd words) then False
      else if is_operator (last words) then False
      else no_consecutive_operators words)"

subsection \<open>Querier: evaluation\<close>

text \<open>
  \<^verbatim>\<open>callbackAddCounts\<close> adds two \<^verbatim>\<open>int\<close>s; \<open>int_wrap\<close> is the \<^verbatim>\<open>int\<close> that \<^verbatim>\<open>existingCount + count\<close>
  yields. A sum that has wrapped to a negative value is refused by \<^verbatim>\<open>counters_set\<close>.
\<close>

definition callbackAddCounts :: "addr option \<Rightarrow> int \<Rightarrow> int \<Rightarrow> store \<Rightarrow> addr option \<times> store" where
  "callbackAddCounts result key cnt h =
     (let existingCount = counters_get result key h
      in (result, counters_set result key (int_wrap (existingCount + cnt)) h))"

definition callbackSetMinimum ::
  "addr option \<times> addr option \<Rightarrow> int \<Rightarrow> int \<Rightarrow> store \<Rightarrow> (addr option \<times> addr option) \<times> store"
where
  "callbackSetMinimum args key cnt h =
     (case args of (acc, wordCounters) \<Rightarrow>
        let c = counters_get wordCounters key h;
            c = (if cnt < c then cnt else c)
        in (args, counters_set acc key c h))"

definition unionCounters :: "addr option \<Rightarrow> addr option \<Rightarrow> store \<Rightarrow> store" where
  "unionCounters result andResult h =
     (if result = None \<or> andResult = None then h
      else snd (counters_iterate andResult result callbackAddCounts h))"

definition intersectCounters :: "addr option \<Rightarrow> addr option \<Rightarrow> store \<Rightarrow> fatal + store" where
  "intersectCounters acc wordCounters h =
     (if acc = None then Inl MemAssertExit
      else if wordCounters = None then Inl MemAssertExit
      else Inr (snd (counters_iterate acc (acc, wordCounters) callbackSetMinimum h)))"

text \<open>\<^verbatim>\<open>matchMerge\<close> returns the two sequence pointers as it leaves them, and the store.\<close>

definition matchMerge ::
  "addr option \<Rightarrow> addr option \<Rightarrow> store \<Rightarrow> (addr option \<times> addr option) \<times> store"
where
  "matchMerge andSequence orSequence h =
     (if andSequence \<noteq> None then
        (case (if orSequence = None then (case counters_new h of (a, h') \<Rightarrow> (Some a, h'))
               else (orSequence, h)) of
           (orSequence', h1) \<Rightarrow>
             let h2 = unionCounters orSequence' andSequence h1;
                 h3 = counters_delete andSequence h2
             in ((None, orSequence'), h3))
      else ((andSequence, orSequence), h))"

text \<open>
  The loop of \<^verbatim>\<open>queryEvaluate\<close> over the remaining words, with the three locals
  \<^verbatim>\<open>andSequence\<close>, \<^verbatim>\<open>orSequence\<close> and \<^verbatim>\<open>andSequenceInvalid\<close>.
\<close>

fun queryEvaluate_loop ::
  "string list \<Rightarrow> index \<Rightarrow> addr option \<Rightarrow> addr option \<Rightarrow> bool \<Rightarrow> store
   \<Rightarrow> fatal + ((addr option \<times> addr option) \<times> store)"
where
  "queryEvaluate_loop [] index andSequence orSequence andSequenceInvalid h =
     Inr ((andSequence, orSequence), h)"
| "queryEvaluate_loop (w # ws) index andSequence orSequence andSequenceInvalid h =
     (if w = ''or'' then
        (case matchMerge andSequence orSequence h of
           ((andSequence', orSequence'), h') \<Rightarrow>
             queryEvaluate_loop ws index andSequence' orSequence' False h')
      else if andSequenceInvalid then
        queryEvaluate_loop ws index andSequence orSequence andSequenceInvalid h
      else if w = ''and'' then
        queryEvaluate_loop ws index andSequence orSequence andSequenceInvalid h
      else
        (case index_find index w of
           None \<Rightarrow>
             (if andSequence \<noteq> None
              then queryEvaluate_loop ws index None orSequence True (counters_delete andSequence h)
              else queryEvaluate_loop ws index andSequence orSequence True h)
         | Some wordMatch \<Rightarrow>
             (if andSequence = None then
                (case counters_new h of
                   (a, h1) \<Rightarrow>
                     (case counters_iterate (Some wordMatch) (Some a) callbackAddCounts h1 of
                        (arg, h2) \<Rightarrow>
                          queryEvaluate_loop ws index (Some a) orSequence andSequenceInvalid h2))
              else
                (case intersectCounters andSequence (Some wordMatch) h of
                   Inl e \<Rightarrow> Inl e
                 | Inr h' \<Rightarrow>
                     queryEvaluate_loop ws index andSequence orSequence andSequenceInvalid h'))))"

definition queryEvaluate :: "string list \<Rightarrow> index \<Rightarrow> store \<Rightarrow> fatal + (addr option \<times> store)" where
  "queryEvaluate words index h =
     (case queryEvaluate_loop words index None None False h of
        Inl e \<Rightarrow> Inl e
      | Inr ((andSequence, orSequence), h1) \<Rightarrow>
          (case matchMerge andSequence orSequence h1 of
             ((andSequence', orSequence'), h2) \<Rightarrow> Inr (orSequence', h2)))"

subsection \<open>Querier: ranking and output\<close>

record docScore =
  docID :: int
  score :: int

definition compareScores :: "docScore \<Rightarrow> docScore \<Rightarrow> int" where
  "compareScores a b = score b - score a"

text \<open>
  \<^verbatim>\<open>qsort\<close> of the C library, whose algorithm is not fixed: here an insertion sort, which
  puts \<open>x\<close> before the first element \<open>y\<close> with \<open>cmp x y \<le> 0\<close>. The properties proved of
  it hold of every sort that follows the comparison function.
\<close>

fun qsort_insert :: "('a \<Rightarrow> 'a \<Rightarrow> int) \<Rightarrow> 'a \<Rightarrow> 'a list \<Rightarrow> 'a list" where
  "qsort_insert cmp x [] = [x]"
| "qsort_insert cmp x (y # ys) =
     (if cmp x y \<le> 0 then x # y # ys else y # qsort_insert cmp x ys)"

definition qsort :: "'a list \<Rightarrow> ('a \<Rightarrow> 'a \<Rightarrow> int) \<Rightarrow> 'a list" where
  "qsort base compar = foldr (qsort_insert compar) base []"

definition callbackCountNonZero :: "int \<Rightarrow> int \<Rightarrow> int \<Rightarrow> store \<Rightarrow> int \<times> store" where
  "callbackCountNonZero counter key cnt h =
     (if cnt > 0 then (counter + 1, h) else (counter, h))"

text \<open>
  The argument of \<^verbatim>\<open>callbackStoreDocScores\<close> is the array \<^verbatim>\<open>docScores\<close> with the index
  \<^verbatim>\<open>docCount\<close> of its next free slot.
\<close>

definition callbackStoreDocScores ::
  "docScore list \<times> nat \<Rightarrow> int \<Rightarrow> int \<Rightarrow> store \<Rightarrow> (docScore list \<times> nat) \<times> store"
where
  "callbackStoreDocScores scoreList key cnt h =
     (if cnt > 0 then
        (case scoreList of (docScores, docCount) \<Rightarrow>
           ((docScores[docCount := \<lparr>docID = key, score = cnt\<rparr>], docCount + 1), h))
      else (scoreList, h))"

text \<open>
  Steps 1 and 3 to 6 of \<^verbatim>\<open>printRankedResults\<close>: count the entries with a positive count,
  allocate an array of that size, fill it, sort it.
\<close>

definition countNonZero :: "addr option \<Rightarrow> store \<Rightarrow> int" where
  "countNonZero result h = fst (counters_iterate result 0 callbackCountNonZero h)"

definition rankedScores :: "addr option \<Rightarrow> store \<Rightarrow> docScore list" where
  "rankedScores result h =
     (let printedCount = countNonZero result h;
          docScores = replicate (nat printedCount) \<lparr>docID = 0, score = 0\<rparr>;
          scoreList = fst (counters_iterate result (docScores, 0) callbackStoreDocScores h)
      in qsort (fst scoreList) compareScores)"

text \<open>
  Step 7: one line per document. The page directory maps a document number to the first
  line of its page file, if the file can be opened; if not, the program exits, and the
  lines written before the exit are not part of the value.
\<close>

fun print_results :: "docScore list \<Rightarrow> (int \<Rightarrow> string option) \<Rightarrow> fatal + string list" where
  "print_results [] pageDirectory = Inr []"
| "print_results (d # ds) pageDirectory =
     (case pageDirectory (docID d) of
        None \<Rightarrow> Inl PageFileExit
      | Some url \<Rightarrow>
          (case print_results ds pageDirectory of
             Inl e \<Rightarrow> Inl e
           | Inr out \<Rightarrow>
               Inr ((''score '' @ printf_d (score d) @ '' doc '' @ printf_d (docID d) @ '': '' @ url)
                    # out)))"

definition printRankedResults ::
  "addr option \<Rightarrow> (int \<Rightarrow> string option) \<Rightarrow> store \<Rightarrow> fatal + string list"
where
  "printRankedResults result pageDirectory h =
     (let printedCount = countNonZero result h in
      if printedCount = 0 then Inr [''No documents match.'']
      else (case print_results (rankedScores result h) pageDirectory of
              Inl e \<Rightarrow> Inl e
            | Inr out \<Rightarrow> Inr ((''Matches '' @ printf_d printedCount @ '' documents (ranked):'') # out)))"

text \<open>
  \<^verbatim>\<open>processQuery\<close> returns the lines it writes to standard output and the store it leaves.
\<close>

definition processQuery ::
  "string \<Rightarrow> index \<Rightarrow> (int \<Rightarrow> string option) \<Rightarrow> store \<Rightarrow> fatal + (string list \<times> store)"
where
  "processQuery query index pageDirectory h =
     (if \<not> isValidCharacters query then Inr ([], h)
      else
        let maxWords = int (length query div 2 + 1);
            words = queryTokenize query maxWords;
            t = length words
        in if t = 0 then Inr ([], h)
           else if \<not> isValidQuerySyntax words then Inr ([], h)
           else
             (case queryEvaluate words index h of
                Inl e \<Rightarrow> Inl e
              | Inr (result, h1) \<Rightarrow>
                  (case printRankedResults result pageDirectory h1 of
                     Inl e \<Rightarrow> Inl e
                   | Inr out \<Rightarrow>
                       Inr ((''Query:'' @ concat (map (\<lambda>w. '' '' @ w) words)) # out,
                            counters_delete result h1))))"

subsection \<open>The evaluator as the specification describes it\<close>

text \<open>
  The specification's DocCounts as a partial map from documents to counts, its two merge
  operations and its state machine over the tokens, written from the specification's
  words to be compared with \<^verbatim>\<open>queryEvaluate\<close>. An absent accumulator is \<open>None\<close>.
\<close>

type_synonym docCounts = "int \<rightharpoonup> int"

definition spec_get :: "docCounts \<Rightarrow> int \<Rightarrow> int" where
  "spec_get m d = (case m d of None \<Rightarrow> 0 | Some c \<Rightarrow> c)"

definition minMergeInto :: "docCounts \<Rightarrow> docCounts \<Rightarrow> docCounts" where
  "minMergeInto dst src = (\<lambda>d. case dst d of None \<Rightarrow> None | Some c \<Rightarrow> Some (min c (spec_get src d)))"

definition sumMergeInto :: "docCounts \<Rightarrow> docCounts \<Rightarrow> docCounts" where
  "sumMergeInto dst src = (\<lambda>d. case src d of None \<Rightarrow> dst d | Some c \<Rightarrow> Some (spec_get dst d + c))"

definition chainComplete ::
  "docCounts option \<Rightarrow> docCounts option \<Rightarrow> docCounts option \<times> docCounts option" where
  "chainComplete andAccumulator orAccumulator =
     (case andAccumulator of
        None \<Rightarrow> (None, orAccumulator)
      | Some m \<Rightarrow>
          (None, Some (sumMergeInto (case orAccumulator of None \<Rightarrow> Map.empty | Some acc \<Rightarrow> acc) m)))"

fun evaluator ::
  "string list \<Rightarrow> (string \<Rightarrow> docCounts option) \<Rightarrow> docCounts option \<Rightarrow> docCounts option \<Rightarrow> bool
   \<Rightarrow> docCounts option \<times> docCounts option"
where
  "evaluator [] lookup andAccumulator orAccumulator chainBroken = (andAccumulator, orAccumulator)"
| "evaluator (token # rest) lookup andAccumulator orAccumulator chainBroken =
     (if token = ''and'' then evaluator rest lookup andAccumulator orAccumulator chainBroken
      else if token = ''or'' then
        (case chainComplete andAccumulator orAccumulator of
           (a, acc) \<Rightarrow> evaluator rest lookup a acc False)
      else if chainBroken then evaluator rest lookup andAccumulator orAccumulator chainBroken
      else (case lookup token of
              None \<Rightarrow> evaluator rest lookup None orAccumulator True
            | Some wordCounts \<Rightarrow>
                (case andAccumulator of
                   None \<Rightarrow> evaluator rest lookup (Some wordCounts) orAccumulator chainBroken
                 | Some acc \<Rightarrow>
                     evaluator rest lookup (Some (minMergeInto acc wordCounts)) orAccumulator chainBroken)))"

definition evaluate :: "string list \<Rightarrow> (string \<Rightarrow> docCounts option) \<Rightarrow> docCounts option" where
  "evaluate tokens lookup =
     (case evaluator tokens lookup None None False of (a, acc) \<Rightarrow> snd (chainComplete a acc))"

subsection \<open>The evaluator with the sums of \<^verbatim>\<open>int\<close>\<close>

text \<open>
  The specification's state machine with the arithmetic of \<^verbatim>\<open>querier.c\<close>: a sum is the
  \<^verbatim>\<open>int\<close> sum, a negative one is refused and leaves the entry as it was, and the first
  word of a chain enters the AND accumulator through the same sum, onto an empty
  DocCounts. This machine stands between the code and the specification's: the code
  refines it on every well-formed index, and it computes what the specification's
  machine computes as long as the sums fit an \<^verbatim>\<open>int\<close>.
\<close>

definition sumMergeInto_int :: "docCounts \<Rightarrow> docCounts \<Rightarrow> docCounts" where
  "sumMergeInto_int dst src =
     (\<lambda>d. case src d of None \<Rightarrow> dst d
          | Some c \<Rightarrow> (let v = int_wrap (spec_get dst d + c) in if v < 0 then dst d else Some v))"

definition chainComplete_int ::
  "docCounts option \<Rightarrow> docCounts option \<Rightarrow> docCounts option \<times> docCounts option" where
  "chainComplete_int andAccumulator orAccumulator =
     (case andAccumulator of
        None \<Rightarrow> (None, orAccumulator)
      | Some m \<Rightarrow>
          (None, Some (sumMergeInto_int (case orAccumulator of None \<Rightarrow> Map.empty | Some acc \<Rightarrow> acc) m)))"

fun evaluator_int ::
  "string list \<Rightarrow> (string \<Rightarrow> docCounts option) \<Rightarrow> docCounts option \<Rightarrow> docCounts option \<Rightarrow> bool
   \<Rightarrow> docCounts option \<times> docCounts option"
where
  "evaluator_int [] lookup andAccumulator orAccumulator chainBroken = (andAccumulator, orAccumulator)"
| "evaluator_int (token # rest) lookup andAccumulator orAccumulator chainBroken =
     (if token = ''and'' then evaluator_int rest lookup andAccumulator orAccumulator chainBroken
      else if token = ''or'' then
        (case chainComplete_int andAccumulator orAccumulator of
           (a, acc) \<Rightarrow> evaluator_int rest lookup a acc False)
      else if chainBroken then evaluator_int rest lookup andAccumulator orAccumulator chainBroken
      else (case lookup token of
              None \<Rightarrow> evaluator_int rest lookup None orAccumulator True
            | Some wordCounts \<Rightarrow>
                (case andAccumulator of
                   None \<Rightarrow>
                     evaluator_int rest lookup (Some (sumMergeInto_int Map.empty wordCounts))
                       orAccumulator chainBroken
                 | Some acc \<Rightarrow>
                     evaluator_int rest lookup (Some (minMergeInto acc wordCounts))
                       orAccumulator chainBroken)))"

definition evaluate_int :: "string list \<Rightarrow> (string \<Rightarrow> docCounts option) \<Rightarrow> docCounts option" where
  "evaluate_int tokens lookup =
     (case evaluator_int tokens lookup None None False of (a, acc) \<Rightarrow> snd (chainComplete_int a acc))"

section \<open>Properties\<close>

subsection \<open>The tokenizer\<close>

lemma split_ws_bound:
  "2 * length (split_ws cur s) \<le> length s + (if cur = [] then 1 else 2)"
proof (induction s arbitrary: cur)
  case Nil
  show ?case by simp
next
  case (Cons c cs)
  show ?case
  proof (cases "isspace c")
    case True
    with Cons[of "[]"] show ?thesis by simp
  next
    case False
    with Cons[of "cur @ [c]"] show ?thesis by (cases "cur = []") simp_all
  qed
qed

lemma split_ws_skip: "split_ws [] (dropWhile isspace s) = split_ws [] s"
  by (induction s) auto

lemma split_ws_word:
  "split_ws cur s =
     (if cur @ takeWhile (\<lambda>c. \<not> isspace c) s = [] then []
      else [cur @ takeWhile (\<lambda>c. \<not> isspace c) s])
     @ split_ws [] (drop 1 (dropWhile (\<lambda>c. \<not> isspace c) s))"
  by (induction s arbitrary: cur) auto

lemma split_ws_all_space: "\<forall>c\<in>set s. isspace c \<Longrightarrow> split_ws [] s = []"
  by (induction s) auto

lemma queryTokenize_loop_complete:
  "int (length words + length (split_ws [] s)) \<le> maxWords \<Longrightarrow>
   queryTokenize_loop s words maxWords = words @ map (map tolower) (split_ws [] s)"
proof (induction s words maxWords rule: queryTokenize_loop.induct)
  case (1 start words maxWords)
  show ?case
  proof (cases "dropWhile isspace start = []")
    case True
    have "split_ws [] start = split_ws [] (dropWhile isspace start)"
      by (rule split_ws_skip[symmetric])
    then have "split_ws [] start = []" using True by simp
    with True show ?thesis by simp
  next
    case False
    define start1 where "start1 = dropWhile isspace start"
    define tok where "tok = takeWhile (\<lambda>c. \<not> isspace c) start1"
    define e where "e = dropWhile (\<lambda>c. \<not> isspace c) start1"
    have ne: "start \<noteq> []" using False by auto
    have ne1: "start1 \<noteq> []" using False by (simp add: start1_def)
    have "\<not> isspace (hd start1)"
      using False hd_dropWhile[of isspace start] by (simp add: start1_def)
    then have tokne: "tok \<noteq> []" using ne1 by (cases start1) (auto simp: tok_def)
    have "split_ws [] start = split_ws [] start1"
      unfolding start1_def by (rule split_ws_skip[symmetric])
    then have sp: "split_ws [] start = tok # split_ws [] (drop 1 e)"
      using split_ws_word[of "[]" start1] tokne by (simp add: tok_def e_def)
    have lt: "int (length words) < maxWords" using "1.prems" sp by simp
    have pre: "int (length (words @ [map tolower tok]) + length (split_ws [] (drop 1 e))) \<le> maxWords"
      using "1.prems" sp by simp
    have ih: "queryTokenize_loop (drop 1 e) (words @ [map tolower tok]) maxWords
          = (words @ [map tolower tok]) @ map (map tolower) (split_ws [] (drop 1 e))"
      using "1.IH"[of start1 "map tolower tok" e] ne ne1 lt pre
      by (simp add: start1_def tok_def e_def)
    have "queryTokenize_loop start words maxWords
          = queryTokenize_loop (drop 1 e) (words @ [map tolower tok]) maxWords"
      using ne ne1 lt
      by (subst queryTokenize_loop.simps) (simp add: start1_def[symmetric] tok_def e_def Let_def)
    then show ?thesis using ih sp by simp
  qed
qed

lemma ws_tokens_bound: "length (ws_tokens q) \<le> length q div 2 + 1"
  using split_ws_bound[of "[]" q] by (simp add: ws_tokens_def)

text \<open>
  Claim C10. A line \<open>q\<close> has at most \<open>strlen(q)/2 + 1\<close> whitespace-separated tokens. Called
  with that capacity, as \<^verbatim>\<open>processQuery\<close> does, or with any capacity that is at least the
  number of tokens, \<^verbatim>\<open>queryTokenize\<close> never reaches its truncation branch: it stores every
  token of the line, lowercased, and so returns the number of tokens. On an empty or
  all-whitespace line it stores nothing and returns 0.
\<close>

theorem queryTokenize_within_capacity:
  "length (ws_tokens q) \<le> length q div 2 + 1
   \<and> queryTokenize q (int (length q div 2 + 1)) = map (map tolower) (ws_tokens q)
   \<and> length (queryTokenize q (int (length q div 2 + 1))) = length (ws_tokens q)
   \<and> (\<forall>m. int (length (ws_tokens q)) \<le> m \<longrightarrow> queryTokenize q m = map (map tolower) (ws_tokens q))
   \<and> ((\<forall>c\<in>set q. isspace c) \<longrightarrow> queryTokenize q (int (length q div 2 + 1)) = [])"
proof -
  have full: "queryTokenize q m = map (map tolower) (ws_tokens q)"
    if "int (length (ws_tokens q)) \<le> m" for m
    using queryTokenize_loop_complete[of "[]" q m] that
    by (simp add: queryTokenize_def ws_tokens_def)
  have cap: "int (length (ws_tokens q)) \<le> int (length q div 2 + 1)"
    using ws_tokens_bound[of q] by simp
  have none: "ws_tokens q = []" if "\<forall>c\<in>set q. isspace c"
    using split_ws_all_space[OF that] by (simp add: ws_tokens_def)
  show ?thesis
    using full[OF cap] full none ws_tokens_bound[of q] by simp
qed

theorem queryTokenize_within_capacity_witness:
  "length (ws_tokens '' Dog  AND cat '') \<le> 8
   \<and> queryTokenize '' Dog  AND cat '' 8 = [''dog'', ''and'', ''cat'']
   \<and> queryTokenize '' Dog  AND cat '' 3 = [''dog'', ''and'', ''cat'']
   \<and> queryTokenize [CHR '' '', CHR 0x0A] 2 = []"
proof -
  let ?q = "'' Dog  AND cat ''" and ?b = "[CHR '' '', CHR 0x0A]"
  have t: "ws_tokens ?q = [''Dog'', ''AND'', ''cat'']"
    by code_simp
  have l: "map (map tolower) [''Dog'', ''AND'', ''cat''] = [''dog'', ''and'', ''cat'']"
    by code_simp
  have s: "\<forall>c\<in>set ?b. isspace c"
    by (simp add: isspace_def)
  note q = queryTokenize_within_capacity[of ?q, unfolded t l]
  note b = queryTokenize_within_capacity[of ?b]
  have "queryTokenize ?q 3 = [''dog'', ''and'', ''cat'']"
    using q by simp
  moreover have "queryTokenize ?q 8 = [''dog'', ''and'', ''cat'']"
    using q by simp
  moreover have "queryTokenize ?b (int (length ?b div 2 + 1)) = []"
    using b s by blast
  then have "queryTokenize ?b 2 = []"
    by simp
  ultimately show ?thesis by (simp add: t)
qed

subsection \<open>Counters in the store\<close>

text \<open>
  A counters object is well formed when no document occurs twice among its entries and
  no count is negative.
\<close>

definition counts_ok :: "counters \<Rightarrow> bool" where
  "counts_ok c = (distinct (map fst c) \<and> (\<forall>(d, n)\<in>set c. 0 \<le> n))"

lemma entries_Some: "cells h a = Some c \<Longrightarrow> entries (Some a) h = c"
  by (simp add: entries_def)

lemma counters_get_Some: "cells h a = Some c \<Longrightarrow> counters_get (Some a) k h = dc_get c k"
  by (simp add: counters_get_def entries_def)

lemma counters_set_Some:
  "cells h a = Some c \<Longrightarrow>
   counters_set (Some a) k v h = h\<lparr>cells := (cells h)(a \<mapsto> dc_set c k v)\<rparr>"
  by (simp add: counters_set_def)

lemma map_of_dc_set:
  "map_of (dc_set c k v) = (if v < 0 then map_of c else (map_of c)(k \<mapsto> v))"
  by (simp add: dc_set_def update_conv')

lemma dc_get_dc_set:
  "dc_get (dc_set c k v) d = (if 0 \<le> v \<and> d = k then v else dc_get c d)"
  by (simp add: dc_get_def map_of_dc_set)

lemma set_update_subset: "set (AList.update k v al) \<subseteq> insert (k, v) (set al)"
  by (induction al) auto

lemma counts_ok_dc_set: "counts_ok c \<Longrightarrow> counts_ok (dc_set c k v)"
  unfolding counts_ok_def dc_set_def
  using set_update_subset[of k v c] by (auto simp: distinct_update)

lemma counts_ok_Nil: "counts_ok []"
  by (simp add: counts_ok_def)

lemma dc_get_nonneg: "counts_ok c \<Longrightarrow> 0 \<le> dc_get c d"
  by (auto simp: counts_ok_def dc_get_def split: option.splits dest!: map_of_SomeD)

text \<open>What iterating \<^verbatim>\<open>callbackAddCounts\<close> over a source does to the destination.\<close>

lemma int_wrap_id: "INT_MIN \<le> x \<Longrightarrow> x \<le> INT_MAX \<Longrightarrow> int_wrap x = x"
  by (simp add: int_wrap_def INT_MIN_def INT_MAX_def)

lemma int_wrap_nonneg: "0 \<le> x \<Longrightarrow> x \<le> INT_MAX \<Longrightarrow> int_wrap x = x"
  by (rule int_wrap_id) (simp_all add: INT_MIN_def)

definition sum_step :: "counters \<Rightarrow> counters \<Rightarrow> int \<Rightarrow> counters" where
  "sum_step S R k = dc_set R k (int_wrap (dc_get R k + dc_get S k))"

lemma iterate_add:
  "cells h r = Some R \<Longrightarrow> cells h s = Some S \<Longrightarrow> r \<noteq> s \<Longrightarrow>
   iterate_keys (Some s) callbackAddCounts ks (Some r) h
   = (Some r, h\<lparr>cells := (cells h)(r \<mapsto> foldl (sum_step S) R ks)\<rparr>)"
proof (induction ks arbitrary: h R)
  case Nil
  then show ?case by (simp add: fun_upd_idem)
next
  case (Cons k ks)
  let ?h = "h\<lparr>cells := (cells h)(r \<mapsto> sum_step S R k)\<rparr>"
  have step: "callbackAddCounts (Some r) k (counters_get (Some s) k h) h = (Some r, ?h)"
    using Cons.prems
    by (simp add: callbackAddCounts_def counters_get_Some counters_set_Some sum_step_def)
  have ih: "iterate_keys (Some s) callbackAddCounts ks (Some r) ?h
        = (Some r, ?h\<lparr>cells := (cells ?h)(r \<mapsto> foldl (sum_step S) (sum_step S R k) ks)\<rparr>)"
    using Cons.prems by (intro Cons.IH) simp_all
  have eq: "?h\<lparr>cells := (cells ?h)(r \<mapsto> foldl (sum_step S) (sum_step S R k) ks)\<rparr>
        = h\<lparr>cells := (cells h)(r \<mapsto> foldl (sum_step S) R (k # ks))\<rparr>"
    by simp
  have "iterate_keys (Some s) callbackAddCounts (k # ks) (Some r) h
        = iterate_keys (Some s) callbackAddCounts ks (Some r) ?h"
    by (simp add: step)
  then show ?case unfolding ih eq .
qed

lemma counts_ok_fold_sum: "counts_ok R \<Longrightarrow> counts_ok (foldl (sum_step S) R ks)"
  by (induction ks arbitrary: R) (simp_all add: sum_step_def counts_ok_dc_set)

text \<open>
  Each key of the source is visited once. The destination gets the wrapped sum, unless
  that is negative: then \<^verbatim>\<open>counters_set\<close> refuses it and the entry stays as it was.
\<close>

lemma dc_get_fold_sum_int:
  "distinct ks \<Longrightarrow>
   dc_get (foldl (sum_step S) R ks) d
   = (if d \<in> set ks \<and> 0 \<le> int_wrap (dc_get R d + dc_get S d)
      then int_wrap (dc_get R d + dc_get S d) else dc_get R d)"
proof (induction ks arbitrary: R)
  case Nil
  then show ?case by simp
next
  case (Cons k ks)
  have d: "distinct ks" "k \<notin> set ks" using Cons.prems by simp_all
  show ?case
    using Cons.IH[OF d(1), of "sum_step S R k"] d(2)
    by (auto simp: sum_step_def dc_get_dc_set)
qed

lemma keys_sum_step:
  "fst ` set (sum_step S R k)
   = (if 0 \<le> int_wrap (dc_get R k + dc_get S k) then insert k (fst ` set R) else fst ` set R)"
  by (simp add: sum_step_def dc_set_def dom_update)

lemma keys_fold_sum_int:
  "distinct ks \<Longrightarrow>
   fst ` set (foldl (sum_step S) R ks)
   = fst ` set R \<union> {k \<in> set ks. 0 \<le> int_wrap (dc_get R k + dc_get S k)}"
proof (induction ks arbitrary: R)
  case Nil
  then show ?case by simp
next
  case (Cons k ks)
  have d: "distinct ks" "k \<notin> set ks" using Cons.prems by simp_all
  have o: "dc_get (sum_step S R k) k' = dc_get R k'" if "k' \<in> set ks" for k'
    using that d(2) by (auto simp: sum_step_def dc_get_dc_set)
  have "{k' \<in> set ks. 0 \<le> int_wrap (dc_get (sum_step S R k) k' + dc_get S k')}
        = {k' \<in> set ks. 0 \<le> int_wrap (dc_get R k' + dc_get S k')}"
    using o by auto
  then show ?case
    using Cons.IH[OF d(1), of "sum_step S R k"] d(2)
    by (auto simp: keys_sum_step split: if_splits)
qed

text \<open>When every sum fits an \<^verbatim>\<open>int\<close>, the destination gets the sums.\<close>

lemma dc_get_fold_sum:
  assumes "counts_ok R" "counts_ok S" "distinct ks"
    and "\<forall>k\<in>set ks. dc_get R k + dc_get S k \<le> INT_MAX"
  shows "dc_get (foldl (sum_step S) R ks) d
         = (if d \<in> set ks then dc_get R d + dc_get S d else dc_get R d)"
proof (cases "d \<in> set ks")
  case True
  have "0 \<le> dc_get R d + dc_get S d"
    using dc_get_nonneg[OF assms(1), of d] dc_get_nonneg[OF assms(2), of d] by simp
  moreover have "dc_get R d + dc_get S d \<le> INT_MAX" using assms(4) True by simp
  ultimately have "int_wrap (dc_get R d + dc_get S d) = dc_get R d + dc_get S d"
    "0 \<le> int_wrap (dc_get R d + dc_get S d)"
    by (simp_all add: int_wrap_nonneg)
  then show ?thesis using True dc_get_fold_sum_int[OF assms(3), of S R d] by simp
next
  case False
  then show ?thesis using dc_get_fold_sum_int[OF assms(3), of S R d] by simp
qed

lemma keys_fold_sum:
  assumes "counts_ok R" "counts_ok S" "distinct ks"
    and "\<forall>k\<in>set ks. dc_get R k + dc_get S k \<le> INT_MAX"
  shows "fst ` set (foldl (sum_step S) R ks) = fst ` set R \<union> set ks"
proof -
  have "0 \<le> int_wrap (dc_get R k + dc_get S k)" if "k \<in> set ks" for k
  proof -
    have "0 \<le> dc_get R k + dc_get S k"
      using dc_get_nonneg[OF assms(1), of k] dc_get_nonneg[OF assms(2), of k] by simp
    moreover have "dc_get R k + dc_get S k \<le> INT_MAX" using assms(4) that by simp
    ultimately show ?thesis by (simp add: int_wrap_nonneg)
  qed
  then have "{k \<in> set ks. 0 \<le> int_wrap (dc_get R k + dc_get S k)} = set ks" by auto
  then show ?thesis using keys_fold_sum_int[OF assms(3), of S R] by simp
qed

text \<open>What iterating \<^verbatim>\<open>callbackSetMinimum\<close> over the accumulator does to it.\<close>

definition min_step :: "counters \<Rightarrow> counters \<Rightarrow> int \<Rightarrow> counters" where
  "min_step W A k = dc_set A k (min (dc_get A k) (dc_get W k))"

lemma iterate_min:
  "cells h a = Some A \<Longrightarrow> cells h w = Some W \<Longrightarrow> a \<noteq> w \<Longrightarrow>
   iterate_keys (Some a) callbackSetMinimum ks (Some a, Some w) h
   = ((Some a, Some w), h\<lparr>cells := (cells h)(a \<mapsto> foldl (min_step W) A ks)\<rparr>)"
proof (induction ks arbitrary: h A)
  case Nil
  then show ?case by (simp add: fun_upd_idem)
next
  case (Cons k ks)
  let ?h = "h\<lparr>cells := (cells h)(a \<mapsto> min_step W A k)\<rparr>"
  have step: "callbackSetMinimum (Some a, Some w) k (counters_get (Some a) k h) h = ((Some a, Some w), ?h)"
    using Cons.prems
    by (simp add: callbackSetMinimum_def counters_get_Some counters_set_Some min_step_def min_def Let_def)
  have ih: "iterate_keys (Some a) callbackSetMinimum ks (Some a, Some w) ?h
        = ((Some a, Some w), ?h\<lparr>cells := (cells ?h)(a \<mapsto> foldl (min_step W) (min_step W A k) ks)\<rparr>)"
    using Cons.prems by (intro Cons.IH) simp_all
  have eq: "?h\<lparr>cells := (cells ?h)(a \<mapsto> foldl (min_step W) (min_step W A k) ks)\<rparr>
        = h\<lparr>cells := (cells h)(a \<mapsto> foldl (min_step W) A (k # ks))\<rparr>"
    by simp
  have "iterate_keys (Some a) callbackSetMinimum (k # ks) (Some a, Some w) h
        = iterate_keys (Some a) callbackSetMinimum ks (Some a, Some w) ?h"
    by (simp add: step)
  then show ?case unfolding ih eq .
qed

lemma counts_ok_fold_min: "counts_ok A \<Longrightarrow> counts_ok (foldl (min_step W) A ks)"
  by (induction ks arbitrary: A) (simp_all add: min_step_def counts_ok_dc_set)

lemma keys_dc_set_present: "k \<in> fst ` set A \<Longrightarrow> map fst (dc_set A k v) = map fst A"
  by (auto simp: dc_set_def update_keys)

lemma keys_fold_min:
  "set ks \<subseteq> fst ` set A \<Longrightarrow> map fst (foldl (min_step W) A ks) = map fst A"
proof (induction ks arbitrary: A)
  case Nil
  then show ?case by simp
next
  case (Cons k ks)
  have "map fst (min_step W A k) = map fst A"
    using Cons.prems by (simp add: min_step_def keys_dc_set_present)
  moreover from this have "fst ` set (min_step W A k) = fst ` set A"
    by (metis list.set_map)
  ultimately show ?case using Cons.IH[of "min_step W A k"] Cons.prems by simp
qed

lemma dc_get_fold_min:
  "counts_ok W \<Longrightarrow> distinct ks \<Longrightarrow>
   dc_get (foldl (min_step W) A ks) d = (if d \<in> set ks then min (dc_get A d) (dc_get W d) else dc_get A d)"
proof (induction ks arbitrary: A)
  case Nil
  then show ?case by simp
next
  case (Cons k ks)
  show ?case
    using Cons.IH[of "min_step W A k"] Cons.prems dc_get_nonneg[of W k]
    by (auto simp: min_step_def dc_get_dc_set min_def)
qed

lemma sumMergeInto_int_eq:
  assumes "\<And>d c. src d = Some c \<Longrightarrow> 0 \<le> spec_get dst d + c \<and> spec_get dst d + c \<le> INT_MAX"
  shows "sumMergeInto_int dst src = sumMergeInto dst src"
proof
  fix d
  show "sumMergeInto_int dst src d = sumMergeInto dst src d"
  proof (cases "src d")
    case None
    then show ?thesis by (simp add: sumMergeInto_int_def sumMergeInto_def)
  next
    case (Some c)
    from assms[OF Some] have "int_wrap (spec_get dst d + c) = spec_get dst d + c"
      by (simp add: int_wrap_nonneg)
    with assms[OF Some] Some show ?thesis
      by (simp add: sumMergeInto_int_def sumMergeInto_def Let_def)
  qed
qed

definition index_counts :: "index \<Rightarrow> store \<Rightarrow> string \<Rightarrow> docCounts option" where
  "index_counts index h word =
     (case index_find index word of None \<Rightarrow> None | Some p \<Rightarrow> Some (map_of (entries (Some p) h)))"

definition represents :: "store \<Rightarrow> addr option \<Rightarrow> docCounts option \<Rightarrow> bool" where
  "represents h p m =
     (case p of None \<Rightarrow> m = None
      | Some a \<Rightarrow> (\<exists>c. cells h a = Some c \<and> counts_ok c \<and> m = Some (map_of c)))"

definition accs_rel :: "nat \<Rightarrow> store \<Rightarrow> addr option \<Rightarrow> addr option \<Rightarrow> docCounts option \<Rightarrow> docCounts option \<Rightarrow> bool" where
  "accs_rel n0 h andS orS am om =
     (represents h andS am \<and> represents h orS om \<and> n0 \<le> nxt h
      \<and> (\<forall>a. andS = Some a \<longrightarrow> n0 \<le> a \<and> a < nxt h \<and> orS \<noteq> Some a)
      \<and> (\<forall>a. orS = Some a \<longrightarrow> n0 \<le> a \<and> a < nxt h))"

definition same_below :: "nat \<Rightarrow> store \<Rightarrow> store \<Rightarrow> bool" where
  "same_below n0 h h' = (\<forall>a<n0. cells h' a = cells h a)"

lemma map_of_via_get:
  "map_of c d = (if d \<in> fst ` set c then Some (dc_get c d) else None)"
  by (auto simp: dc_get_def map_of_eq_None_iff[symmetric] simp del: map_of_eq_None_iff split: option.splits)

lemma spec_get_map_of: "spec_get (map_of c) d = dc_get c d"
  by (simp add: spec_get_def dc_get_def)

lemma sum_fold_refines:
  assumes "counts_ok S"
  shows "map_of (foldl (sum_step S) R (map fst S)) = sumMergeInto_int (map_of R) (map_of S)"
proof
  fix d
  have dS: "distinct (map fst S)" using assms by (simp add: counts_ok_def)
  note g = dc_get_fold_sum_int[OF dS, of S R d]
  note k = keys_fold_sum_int[OF dS, of S R]
  show "map_of (foldl (sum_step S) R (map fst S)) d = sumMergeInto_int (map_of R) (map_of S) d"
  proof (cases "d \<in> fst ` set S")
    case True
    then have m: "map_of S d = Some (dc_get S d)" by (simp add: map_of_via_get)
    show ?thesis
    proof (cases "0 \<le> int_wrap (dc_get R d + dc_get S d)")
      case T: True
      then show ?thesis
        using True m g k
        by (simp add: sumMergeInto_int_def spec_get_map_of map_of_via_get[of "foldl _ _ _"] Let_def)
    next
      case F: False
      then show ?thesis
        using True m g k
        by (simp add: sumMergeInto_int_def spec_get_map_of map_of_via_get[of "foldl _ _ _"]
            map_of_via_get[of R] Let_def)
    qed
  next
    case False
    then have "map_of S d = None" by (simp add: map_of_via_get)
    then show ?thesis
      using False g k
      by (simp add: sumMergeInto_int_def map_of_via_get[of "foldl _ _ _"] map_of_via_get[of R])
  qed
qed

lemma min_fold_refines:
  assumes "counts_ok A" "counts_ok W"
  shows "map_of (foldl (min_step W) A (map fst A)) = minMergeInto (map_of A) (map_of W)"
proof
  fix d
  have dA: "distinct (map fst A)" using assms by (simp add: counts_ok_def)
  have k: "fst ` set (foldl (min_step W) A (map fst A)) = fst ` set A"
    using keys_fold_min[of "map fst A" A W] by (metis list.set_map subset_refl)
  show "map_of (foldl (min_step W) A (map fst A)) d = minMergeInto (map_of A) (map_of W) d"
    using dc_get_fold_min[OF assms(2) dA, of A d] k
    by (simp add: minMergeInto_def spec_get_map_of map_of_via_get[of "foldl _ _ _"] map_of_via_get[of A])
qed

lemma sumMergeInto_empty: "sumMergeInto Map.empty m = m"
  by (rule ext) (simp add: sumMergeInto_def spec_get_def split: option.splits)

lemma sumMergeInto_int_empty:
  assumes "\<And>d c. m d = Some c \<Longrightarrow> 0 \<le> c \<and> c \<le> INT_MAX"
  shows "sumMergeInto_int Map.empty m = m"
proof -
  have "sumMergeInto_int Map.empty m = sumMergeInto Map.empty m"
    by (rule sumMergeInto_int_eq) (simp add: spec_get_def assms)
  then show ?thesis by (simp add: sumMergeInto_empty)
qed

definition lookup_ok :: "nat \<Rightarrow> index \<Rightarrow> store \<Rightarrow> bool" where
  "lookup_ok n0 index h =
     (\<forall>w p. index_find index w = Some p \<longrightarrow> p < n0 \<and> (\<exists>c. cells h p = Some c \<and> counts_ok c))"

lemma same_below_refl: "same_below n0 h h"
  by (simp add: same_below_def)

lemma same_below_trans: "same_below n0 h h1 \<Longrightarrow> same_below n0 h1 h2 \<Longrightarrow> same_below n0 h h2"
  by (simp add: same_below_def)

lemma lookup_ok_frame: "same_below n0 h h' \<Longrightarrow> lookup_ok n0 index h \<Longrightarrow> lookup_ok n0 index h'"
  by (auto simp: same_below_def lookup_ok_def)

lemma index_counts_frame:
  "same_below n0 h h' \<Longrightarrow> lookup_ok n0 index h \<Longrightarrow> index_counts index h' = index_counts index h"
  by (rule ext) (auto simp: same_below_def lookup_ok_def index_counts_def entries_def split: option.splits)

lemma unionCounters_Some:
  "cells h r = Some R \<Longrightarrow> cells h s = Some S \<Longrightarrow> r \<noteq> s \<Longrightarrow>
   unionCounters (Some r) (Some s) h
   = h\<lparr>cells := (cells h)(r \<mapsto> foldl (sum_step S) R (map fst S))\<rparr>"
  by (simp add: unionCounters_def counters_iterate_def entries_Some iterate_add)

lemma intersectCounters_Some:
  "cells h a = Some A \<Longrightarrow> cells h w = Some W \<Longrightarrow> a \<noteq> w \<Longrightarrow>
   intersectCounters (Some a) (Some w) h
   = Inr (h\<lparr>cells := (cells h)(a \<mapsto> foldl (min_step W) A (map fst A))\<rparr>)"
  by (simp add: intersectCounters_def counters_iterate_def entries_Some iterate_min)

lemma matchMerge_refines:
  assumes r: "accs_rel n0 h andS orS am om"
  shows "\<exists>andS' orS' h'. matchMerge andS orS h = ((andS', orS'), h')
           \<and> accs_rel n0 h' andS' orS' (fst (chainComplete_int am om)) (snd (chainComplete_int am om))
           \<and> same_below n0 h h'"
proof (cases andS)
  case None
  then have "am = None" using r by (simp add: accs_rel_def represents_def)
  with None r show ?thesis
    by (simp add: matchMerge_def chainComplete_int_def same_below_refl)
next
  case (Some a)
  from r Some obtain A where A: "cells h a = Some A" "counts_ok A" "am = Some (map_of A)"
    by (auto simp: accs_rel_def represents_def)
  from r Some have a: "n0 \<le> a" "a < nxt h" "orS \<noteq> Some a" and n0: "n0 \<le> nxt h"
    by (auto simp: accs_rel_def)
  show ?thesis
  proof (cases orS)
    case None
    then have om: "om = None" using r by (simp add: accs_rel_def represents_def)
    define h1 where "h1 = h\<lparr>cells := (cells h)(nxt h \<mapsto> []), nxt := Suc (nxt h)\<rparr>"
    define R where "R = foldl (sum_step A) [] (map fst A)"
    define h3 where "h3 = h1\<lparr>cells := ((cells h1)(nxt h \<mapsto> R))(a := None)\<rparr>"
    have c1: "cells h1 (nxt h) = Some []" "cells h1 a = Some A" "nxt h \<noteq> a"
      using A a by (simp_all add: h1_def)
    have u: "unionCounters (Some (nxt h)) (Some a) h1 = h1\<lparr>cells := (cells h1)(nxt h \<mapsto> R)\<rparr>"
      using unionCounters_Some[OF c1] by (simp add: R_def)
    have mm: "matchMerge andS orS h = ((None, Some (nxt h)), h3)"
      using Some None u
      by (simp add: matchMerge_def counters_new_def h1_def[symmetric] counters_delete_def h3_def Let_def)
    have gR: "counts_ok R" unfolding R_def by (rule counts_ok_fold_sum[OF counts_ok_Nil])
    have mR: "map_of R = sumMergeInto_int Map.empty (map_of A)"
      unfolding R_def using sum_fold_refines[OF A(2), of "[]"] by simp
    have cR: "cells h3 (nxt h) = Some R" using c1 by (simp add: h3_def)
    have "accs_rel n0 h3 None (Some (nxt h)) None (Some (sumMergeInto_int Map.empty (map_of A)))"
      using cR gR mR n0 by (simp add: accs_rel_def represents_def h3_def h1_def)
    moreover have "same_below n0 h h3"
      using a n0 by (simp add: same_below_def h3_def h1_def)
    ultimately show ?thesis using mm A om by (simp add: chainComplete_int_def)
  next
    case (Some ob)
    note So = this
    from r So obtain Ro where Ro: "cells h ob = Some Ro" "counts_ok Ro" "om = Some (map_of Ro)"
      by (auto simp: accs_rel_def represents_def)
    from r So have ob: "n0 \<le> ob" "ob < nxt h" by (auto simp: accs_rel_def)
    have oa: "ob \<noteq> a" using a So by simp
    define R where "R = foldl (sum_step A) Ro (map fst A)"
    define h3 where "h3 = h\<lparr>cells := ((cells h)(ob \<mapsto> R))(a := None)\<rparr>"
    have u: "unionCounters (Some ob) (Some a) h = h\<lparr>cells := (cells h)(ob \<mapsto> R)\<rparr>"
      using unionCounters_Some[OF Ro(1) A(1) oa] by (simp add: R_def)
    have mm: "matchMerge andS orS h = ((None, Some ob), h3)"
      using \<open>andS = Some a\<close> So u
      by (simp add: matchMerge_def counters_delete_def h3_def Let_def)
    have gR: "counts_ok R" unfolding R_def by (rule counts_ok_fold_sum[OF Ro(2)])
    have mR: "map_of R = sumMergeInto_int (map_of Ro) (map_of A)"
      unfolding R_def by (rule sum_fold_refines[OF A(2)])
    have cR: "cells h3 ob = Some R" using oa by (simp add: h3_def)
    have "accs_rel n0 h3 None (Some ob) None (Some (sumMergeInto_int (map_of Ro) (map_of A)))"
      using cR gR mR n0 ob by (simp add: accs_rel_def represents_def h3_def)
    moreover have "same_below n0 h h3"
      using a ob by (simp add: same_below_def h3_def)
    ultimately show ?thesis using mm A Ro by (simp add: chainComplete_int_def)
  qed
qed

lemma counters_iterate_copy:
  "cells h p = Some S \<Longrightarrow> cells h a = Some [] \<Longrightarrow> a \<noteq> p \<Longrightarrow>
   counters_iterate (Some p) (Some a) callbackAddCounts h
   = (Some a, h\<lparr>cells := (cells h)(a \<mapsto> foldl (sum_step S) [] (map fst S))\<rparr>)"
  by (simp add: counters_iterate_def entries_Some iterate_add)

lemma loop_refines:
  assumes "accs_rel n0 h andS orS am om" and "lookup_ok n0 index h"
  shows "\<exists>andS' orS' h'.
           queryEvaluate_loop ws index andS orS bk h = Inr ((andS', orS'), h')
           \<and> accs_rel n0 h' andS' orS'
                 (fst (evaluator_int ws (index_counts index h) am om bk))
                 (snd (evaluator_int ws (index_counts index h) am om bk))
           \<and> same_below n0 h h'"
  using assms
proof (induction ws arbitrary: h andS orS am om bk)
  case Nil
  then show ?case by (simp add: same_below_refl)
next
  case (Cons w ws)
  note r = Cons.prems(1) and ok = Cons.prems(2)
  have cont: "\<exists>andS' orS' h'.
           queryEvaluate_loop ws index andS1 orS1 bk1 h1 = Inr ((andS', orS'), h')
           \<and> accs_rel n0 h' andS' orS'
                 (fst (evaluator_int ws (index_counts index h) am1 om1 bk1))
                 (snd (evaluator_int ws (index_counts index h) am1 om1 bk1))
           \<and> same_below n0 h h'"
    if "accs_rel n0 h1 andS1 orS1 am1 om1" "same_below n0 h h1" for h1 andS1 orS1 am1 om1 bk1
  proof -
    have ok1: "lookup_ok n0 index h1" using lookup_ok_frame[OF that(2) ok] .
    have ic: "index_counts index h1 = index_counts index h"
      using index_counts_frame[OF that(2) ok] .
    from Cons.IH[OF that(1) ok1, of bk1] ic that(2) show ?thesis
      by (auto intro: same_below_trans)
  qed
  show ?case
  proof (cases "w = ''or''")
    case True
    from matchMerge_refines[OF r] obtain andS1 orS1 h1 where
      mm: "matchMerge andS orS h = ((andS1, orS1), h1)"
      and r1: "accs_rel n0 h1 andS1 orS1 (fst (chainComplete_int am om)) (snd (chainComplete_int am om))"
      and f1: "same_below n0 h h1" by blast
    from cont[OF r1 f1, of False] True mm show ?thesis
      by (simp add: case_prod_beta)
  next
    case notor: False
    show ?thesis
    proof (cases bk)
      case True
      from cont[OF r same_below_refl, of True] True notor show ?thesis by simp
    next
      case notbk: False
      show ?thesis
      proof (cases "w = ''and''")
        case True
        from cont[OF r same_below_refl, of False] True notbk show ?thesis by simp
      next
        case notand: False
        show ?thesis
        proof (cases "index_find index w")
          case None
          then have ic: "index_counts index h w = None" by (simp add: index_counts_def)
          show ?thesis
          proof (cases andS)
            case N: None
            then have "am = None" using r by (simp add: accs_rel_def represents_def)
            with r N have r1: "accs_rel n0 h None orS None om" by simp
            from cont[OF r1 same_below_refl, of True] None N ic notor notbk notand
            show ?thesis by simp
          next
            case (Some a)
            from r Some have a: "n0 \<le> a" "a < nxt h" "orS \<noteq> Some a"
              by (auto simp: accs_rel_def)
            let ?h1 = "h\<lparr>cells := (cells h)(a := None)\<rparr>"
            have r1: "accs_rel n0 ?h1 None orS None om"
              using r a by (auto simp: accs_rel_def represents_def split: option.splits)
            have f1: "same_below n0 h ?h1" using a by (simp add: same_below_def)
            from cont[OF r1 f1, of True] None Some ic notor notbk notand
            show ?thesis by (simp add: counters_delete_def)
          qed
        next
          case (Some p)
          from ok Some obtain S where p: "p < n0" and S: "cells h p = Some S" "counts_ok S"
            by (auto simp: lookup_ok_def)
          have ic: "index_counts index h w = Some (map_of S)"
            using Some S by (simp add: index_counts_def entries_Some)
          from r have n0: "n0 \<le> nxt h" by (simp add: accs_rel_def)
          show ?thesis
          proof (cases andS)
            case N: None
            then have am: "am = None" using r by (simp add: accs_rel_def represents_def)
            define h1 where "h1 = h\<lparr>cells := (cells h)(nxt h \<mapsto> []), nxt := Suc (nxt h)\<rparr>"
            define R where "R = foldl (sum_step S) [] (map fst S)"
            define h2 where "h2 = h1\<lparr>cells := (cells h1)(nxt h \<mapsto> R)\<rparr>"
            have c1: "cells h1 p = Some S" "cells h1 (nxt h) = Some []" "nxt h \<noteq> p"
              using S p n0 by (auto simp: h1_def)
            have it: "counters_iterate (Some p) (Some (nxt h)) callbackAddCounts h1 = (Some (nxt h), h2)"
              using counters_iterate_copy[OF c1] by (simp add: R_def h2_def)
            have gR: "counts_ok R" unfolding R_def by (rule counts_ok_fold_sum[OF counts_ok_Nil])
            have mR: "map_of R = sumMergeInto_int Map.empty (map_of S)"
              unfolding R_def using sum_fold_refines[OF S(2), of "[]"] by simp
            have r1: "accs_rel n0 h2 (Some (nxt h)) orS (Some (sumMergeInto_int Map.empty (map_of S))) om"
              using r N gR mR n0
              by (auto simp: accs_rel_def represents_def h2_def h1_def split: option.splits)
            have f1: "same_below n0 h h2" using n0 by (simp add: same_below_def h2_def h1_def)
            from cont[OF r1 f1, of False] Some N am ic notor notbk notand it
            show ?thesis by (simp add: counters_new_def h1_def[symmetric])
          next
            case SA: (Some a)
            from r SA obtain A where A: "cells h a = Some A" "counts_ok A" "am = Some (map_of A)"
              by (auto simp: accs_rel_def represents_def)
            from r SA have a: "n0 \<le> a" "a < nxt h" "orS \<noteq> Some a"
              by (auto simp: accs_rel_def)
            have ap: "a \<noteq> p" using a p by simp
            define R where "R = foldl (min_step S) A (map fst A)"
            define h1 where "h1 = h\<lparr>cells := (cells h)(a \<mapsto> R)\<rparr>"
            have ic1: "intersectCounters (Some a) (Some p) h = Inr h1"
              using intersectCounters_Some[OF A(1) S(1) ap] by (simp add: R_def h1_def)
            have gR: "counts_ok R" unfolding R_def by (rule counts_ok_fold_min[OF A(2)])
            have mR: "map_of R = minMergeInto (map_of A) (map_of S)"
              unfolding R_def by (rule min_fold_refines[OF A(2) S(2)])
            have r1: "accs_rel n0 h1 (Some a) orS (Some (minMergeInto (map_of A) (map_of S))) om"
              using r SA gR mR a
              by (auto simp: accs_rel_def represents_def h1_def split: option.splits)
            have f1: "same_below n0 h h1" using a by (simp add: same_below_def h1_def)
            from cont[OF r1 f1, of False] Some SA A ic notor notbk notand ic1
            show ?thesis by simp
          qed
        qed
      qed
    qed
  qed
qed

subsection \<open>\<^verbatim>\<open>queryEvaluate\<close> refines the state machine\<close>

text \<open>
  A well-formed index in a store: every word's counters object was allocated (its address
  is below \<open>nxt\<close>), is live and is well formed.
\<close>

definition index_ok :: "index \<Rightarrow> store \<Rightarrow> bool" where
  "index_ok index h =
     (\<forall>(word, ctrs)\<in>set index.
        ctrs < nxt h \<and> (case cells h ctrs of None \<Rightarrow> False | Some c \<Rightarrow> counts_ok c))"

lemma index_ok_lookup: "index_ok index h \<Longrightarrow> lookup_ok (nxt h) index h"
  unfolding index_ok_def lookup_ok_def index_find_def hashtable_find_def
  by (auto dest!: map_of_SomeD split: option.splits)

lemma queryEvaluate_refines:
  assumes "lookup_ok (nxt h) index h"
  shows "\<exists>r h'. queryEvaluate words index h = Inr (r, h')
           \<and> represents h' r (evaluate_int words (index_counts index h))
           \<and> same_below (nxt h) h h'"
proof -
  have r0: "accs_rel (nxt h) h None None None None"
    by (simp add: accs_rel_def represents_def)
  from loop_refines[OF r0 assms, of words False] obtain andS orS h1 where
    l: "queryEvaluate_loop words index None None False h = Inr ((andS, orS), h1)"
    and r1: "accs_rel (nxt h) h1 andS orS
               (fst (evaluator_int words (index_counts index h) None None False))
               (snd (evaluator_int words (index_counts index h) None None False))"
    and f1: "same_below (nxt h) h h1" by blast
  from matchMerge_refines[OF r1] obtain andS' orS' h2 where
    m: "matchMerge andS orS h1 = ((andS', orS'), h2)"
    and r2: "accs_rel (nxt h) h2 andS' orS'
               (fst (chainComplete_int (fst (evaluator_int words (index_counts index h) None None False))
                                   (snd (evaluator_int words (index_counts index h) None None False))))
               (snd (chainComplete_int (fst (evaluator_int words (index_counts index h) None None False))
                                   (snd (evaluator_int words (index_counts index h) None None False))))"
    and f2: "same_below (nxt h) h1 h2" by blast
  have "queryEvaluate words index h = Inr (orS', h2)"
    using l m by (simp add: queryEvaluate_def)
  moreover have "represents h2 orS' (evaluate_int words (index_counts index h))"
    using r2 by (simp add: accs_rel_def evaluate_int_def case_prod_beta)
  moreover have "same_below (nxt h) h h2" using f1 f2 by (rule same_below_trans)
  ultimately show ?thesis by blast
qed

lemma represents_None: "represents h r None \<Longrightarrow> r = None"
  by (cases r) (auto simp: represents_def)

lemma represents_Some:
  "represents h r (Some m) \<Longrightarrow>
   \<exists>a c. r = Some a \<and> cells h a = Some c \<and> counts_ok c \<and> map_of c = m"
  by (cases r) (auto simp: represents_def)

lemma represents_entries:
  "represents h r m \<Longrightarrow>
   counts_ok (entries r h) \<and> map_of (entries r h) = (case m of None \<Rightarrow> Map.empty | Some x \<Rightarrow> x)"
  by (cases r) (auto simp: represents_def entries_def counts_ok_def)

text \<open>Iterating with a callback that leaves the store alone is a fold over the entries.\<close>

lemma iterate_keys_pure:
  assumes "\<And>arg k v. snd (f arg k v h) = h"
  shows "iterate_keys p f ks arg h = (foldl (\<lambda>a k. fst (f a k (counters_get p k h) h)) arg ks, h)"
proof (induction ks arbitrary: arg)
  case Nil
  show ?case by simp
next
  case (Cons k ks)
  have "snd (f arg k (counters_get p k h) h) = h"
    by (rule assms)
  then show ?case using Cons.IH by (simp add: case_prod_beta)
qed

lemma dc_get_entry: "distinct (map fst c) \<Longrightarrow> (k, v) \<in> set c \<Longrightarrow> dc_get c k = v"
  by (simp add: dc_get_def)

lemma foldl_keys_entries:
  assumes "distinct (map fst c)" "set xs \<subseteq> set c"
  shows "foldl (\<lambda>a k. g a k (dc_get c k)) arg (map fst xs) = foldl (\<lambda>a (k, v). g a k v) arg xs"
  using assms(2)
proof (induction xs arbitrary: arg)
  case Nil
  show ?case by simp
next
  case (Cons x xs)
  obtain k v where x: "x = (k, v)" by (cases x)
  have "dc_get c k = v" using Cons.prems x dc_get_entry[OF assms(1)] by simp
  then show ?case using Cons x by simp
qed

lemma counters_iterate_pure:
  assumes "\<And>arg k v. snd (f arg k v h) = h" "distinct (map fst (entries p h))"
  shows "counters_iterate p arg f h = (foldl (\<lambda>a (k, v). fst (f a k v h)) arg (entries p h), h)"
proof -
  have "counters_get p k h = dc_get (entries p h) k" for k
    by (simp add: counters_get_def)
  then show ?thesis
    unfolding counters_iterate_def iterate_keys_pure[of f h, OF assms(1)]
    using foldl_keys_entries[OF assms(2) subset_refl, of "\<lambda>a k v. fst (f a k v h)" arg]
    by simp
qed

lemma countNonZero_eq:
  assumes "distinct (map fst (entries r h))"
  shows "countNonZero r h = int (length (filter (\<lambda>(d, c). 0 < c) (entries r h)))"
proof -
  have "foldl (\<lambda>a (k, v). fst (callbackCountNonZero a k v h)) n xs
        = n + int (length (filter (\<lambda>(d, c). 0 < c) xs))" for n xs
    by (induction xs arbitrary: n) (auto simp: callbackCountNonZero_def)
  then show ?thesis
    unfolding countNonZero_def
    using counters_iterate_pure[of callbackCountNonZero h r 0] assms
    by (simp add: callbackCountNonZero_def)
qed

text \<open>An index of four words, used to instantiate the theorems below.\<close>

definition demo_store :: store where
  "demo_store =
     \<lparr>cells = (\<lambda>a. None)(0 \<mapsto> [(1, 2), (3, 4)], 1 \<mapsto> [(3, 1), (7, 1)], 2 \<mapsto> [(5, 2)], 3 \<mapsto> [(5, 3)]),
      nxt = 4\<rparr>"

definition demo_index :: index where
  "demo_index = [(''dog'', 0), (''cat'', 1), (''emu'', 2), (''fox'', 3)]"

lemma demo_index_ok: "index_ok demo_index demo_store"
  by (simp add: index_ok_def demo_index_def demo_store_def counts_ok_def)

subsection \<open>AND by minimum\<close>

lemma evaluate_int_and2:
  assumes "\<not> is_operator w1" "\<not> is_operator w2" "lookup w1 = Some m1" "lookup w2 = Some m2"
  shows "evaluate_int [w1, ''and'', w2] lookup
         = Some (sumMergeInto_int Map.empty (minMergeInto (sumMergeInto_int Map.empty m1) m2))"
  using assms
  by (simp add: evaluate_int_def is_operator_def chainComplete_int_def)

lemma sumMergeInto_int_empty_Some:
  "sumMergeInto_int Map.empty m d = Some n \<Longrightarrow> \<exists>c. m d = Some c \<and> n = int_wrap c \<and> 0 \<le> n"
  by (auto simp: sumMergeInto_int_def spec_get_def Let_def split: option.splits if_splits)

lemma int_wrap_0: "int_wrap 0 = 0"
  by (simp add: int_wrap_def)

lemma index_ok_find:
  "index_ok index h \<Longrightarrow> index_find index w = Some p \<Longrightarrow>
   p < nxt h \<and> (\<exists>c. cells h p = Some c \<and> counts_ok c)"
  using index_ok_lookup[of index h] by (simp add: lookup_ok_def)

lemma all_zero_no_match:
  assumes "counts_ok (entries r h)" "\<forall>(d, c)\<in>set (entries r h). c = 0"
  shows "printRankedResults r pageDirectory h = Inr [''No documents match.'']"
proof -
  have "filter (\<lambda>(d, c). 0 < c) (entries r h) = []"
    using assms(2) by (auto simp: filter_empty_conv)
  then have "countNonZero r h = 0"
    using countNonZero_eq[of r h] assms(1) by (simp add: counts_ok_def)
  then show ?thesis by (simp add: printRankedResults_def)
qed

text \<open>
  Claim C2. On well-formed counters at different addresses, \<^verbatim>\<open>intersectCounters(acc, src)\<close>
  keeps the entries of \<^verbatim>\<open>acc\<close> in place, adds none, and replaces the count \<open>c\<close> of every
  entry \<open>(d, c)\<close> by \<open>min c (counters_get src d)\<close>, where \<^verbatim>\<open>counters_get\<close> is 0 for a document
  that \<^verbatim>\<open>src\<close> lacks; no other object changes. Consequently, for two indexed words whose
  document sets are disjoint, the query "w1 and w2" yields a result in which every count
  is 0, and nothing is ranked: the output is "No documents match.".
\<close>

theorem intersectCounters_min_merge:
  "(cells h a = Some A \<and> cells h w = Some W \<and> a \<noteq> w \<and> counts_ok A \<and> counts_ok W \<longrightarrow>
      (\<exists>h'. intersectCounters (Some a) (Some w) h = Inr h'
         \<and> map fst (entries (Some a) h') = map fst A
         \<and> (\<forall>(d, c)\<in>set A. counters_get (Some a) d h' = min c (counters_get (Some w) d h))
         \<and> (\<forall>b. b \<noteq> a \<longrightarrow> cells h' b = cells h b)))
   \<and> (index_ok index h \<and> index_find index w1 = Some p1 \<and> index_find index w2 = Some p2
        \<and> \<not> is_operator w1 \<and> \<not> is_operator w2
        \<and> fst ` set (entries (Some p1) h) \<inter> fst ` set (entries (Some p2) h) = {} \<longrightarrow>
      (\<exists>r h'. queryEvaluate [w1, ''and'', w2] index h = Inr (r, h')
         \<and> (\<forall>(d, c)\<in>set (entries r h'). c = 0)
         \<and> (\<forall>d. counters_get r d h' = 0)
         \<and> printRankedResults r pageDirectory h' = Inr [''No documents match.'']))"
proof (intro conjI impI)
  assume asm: "cells h a = Some A \<and> cells h w = Some W \<and> a \<noteq> w \<and> counts_ok A \<and> counts_ok W"
  then have A: "cells h a = Some A" and W: "cells h w = Some W" and aw: "a \<noteq> w"
    and gA: "counts_ok A" and gW: "counts_ok W" by simp_all
  define R where "R = foldl (min_step W) A (map fst A)"
  define h' where "h' = h\<lparr>cells := (cells h)(a \<mapsto> R)\<rparr>"
  have i: "intersectCounters (Some a) (Some w) h = Inr h'"
    using intersectCounters_Some[OF A W aw] by (simp add: R_def h'_def)
  have e: "entries (Some a) h' = R" by (simp add: entries_def h'_def)
  have k: "map fst R = map fst A"
    unfolding R_def by (rule keys_fold_min) simp
  have dA: "distinct (map fst A)" using gA by (simp add: counts_ok_def)
  have v: "counters_get (Some a) d h' = min c (counters_get (Some w) d h)" if "(d, c) \<in> set A" for d c
  proof -
    have "d \<in> set (map fst A)" using that by force
    then have "dc_get R d = min (dc_get A d) (dc_get W d)"
      unfolding R_def using dc_get_fold_min[OF gW dA, of A d] by simp
    moreover have "dc_get A d = c" using dc_get_entry[OF dA that] .
    ultimately show ?thesis
      using W e by (simp add: counters_get_def entries_Some)
  qed
  have o: "\<forall>b. b \<noteq> a \<longrightarrow> cells h' b = cells h b" by (simp add: h'_def)
  show "\<exists>h'. intersectCounters (Some a) (Some w) h = Inr h'
         \<and> map fst (entries (Some a) h') = map fst A
         \<and> (\<forall>(d, c)\<in>set A. counters_get (Some a) d h' = min c (counters_get (Some w) d h))
         \<and> (\<forall>b. b \<noteq> a \<longrightarrow> cells h' b = cells h b)"
    using i e k v o by blast
next
  assume asm: "index_ok index h \<and> index_find index w1 = Some p1 \<and> index_find index w2 = Some p2
        \<and> \<not> is_operator w1 \<and> \<not> is_operator w2
        \<and> fst ` set (entries (Some p1) h) \<inter> fst ` set (entries (Some p2) h) = {}"
  then have ok: "index_ok index h" and f1: "index_find index w1 = Some p1"
    and f2: "index_find index w2 = Some p2" and n1: "\<not> is_operator w1" and n2: "\<not> is_operator w2"
    and dis: "fst ` set (entries (Some p1) h) \<inter> fst ` set (entries (Some p2) h) = {}"
    by simp_all
  from index_ok_find[OF ok f1] obtain P1 where P1: "cells h p1 = Some P1" "counts_ok P1" by blast
  from index_ok_find[OF ok f2] obtain P2 where P2: "cells h p2 = Some P2" "counts_ok P2" by blast
  have l1: "index_counts index h w1 = Some (map_of P1)"
    using f1 P1 by (simp add: index_counts_def entries_Some)
  have l2: "index_counts index h w2 = Some (map_of P2)"
    using f2 P2 by (simp add: index_counts_def entries_Some)
  from queryEvaluate_refines[OF index_ok_lookup[OF ok], of "[w1, ''and'', w2]"]
  obtain r h' where q: "queryEvaluate [w1, ''and'', w2] index h = Inr (r, h')"
    and rep: "represents h' r
        (Some (sumMergeInto_int Map.empty
                 (minMergeInto (sumMergeInto_int Map.empty (map_of P1)) (map_of P2))))"
    using evaluate_int_and2[OF n1 n2 l1 l2] by auto
  from represents_Some[OF rep] obtain a c where
    c: "r = Some a" "cells h' a = Some c" "counts_ok c"
       "map_of c = sumMergeInto_int Map.empty
                     (minMergeInto (sumMergeInto_int Map.empty (map_of P1)) (map_of P2))" by blast
  have e: "entries r h' = c" using c by (simp add: entries_Some)
  have dis': "fst ` set P1 \<inter> fst ` set P2 = {}" using dis P1 P2 by (simp add: entries_Some)
  have z: "n = 0" if "map_of c d = Some n" for d n
  proof -
    from that c(4) obtain x where
      x: "minMergeInto (sumMergeInto_int Map.empty (map_of P1)) (map_of P2) d = Some x"
         "n = int_wrap x"
      using sumMergeInto_int_empty_Some[of _ d n] by metis
    from x(1) obtain y where
      y: "sumMergeInto_int Map.empty (map_of P1) d = Some y" "x = min y (spec_get (map_of P2) d)"
      by (auto simp: minMergeInto_def split: option.splits)
    from sumMergeInto_int_empty_Some[OF y(1)] obtain c1 where
      c1: "map_of P1 d = Some c1" "0 \<le> y" by blast
    have "d \<in> fst ` set P1" using c1(1) by (force dest: map_of_SomeD)
    then have "d \<notin> fst ` set P2" using dis' by blast
    then have "map_of P2 d = None" by (simp add: map_of_eq_None_iff)
    then have "spec_get (map_of P2) d = 0" by (simp add: spec_get_def)
    then have "x = 0" using y(2) c1(2) by simp
    then show ?thesis using x(2) by (simp add: int_wrap_0)
  qed
  have dc: "distinct (map fst c)" using c(3) by (simp add: counts_ok_def)
  have allz: "\<forall>(d, n)\<in>set (entries r h'). n = 0"
    using z dc e by (auto dest: map_of_is_SomeI)
  have getz: "\<forall>d. counters_get r d h' = 0"
    using z e by (auto simp: counters_get_def dc_get_def split: option.splits)
  have pr: "printRankedResults r pageDirectory h' = Inr [''No documents match.'']"
    using all_zero_no_match[of r h'] allz c(3) e by simp
  show "\<exists>r h'. queryEvaluate [w1, ''and'', w2] index h = Inr (r, h')
         \<and> (\<forall>(d, c)\<in>set (entries r h'). c = 0)
         \<and> (\<forall>d. counters_get r d h' = 0)
         \<and> printRankedResults r pageDirectory h' = Inr [''No documents match.'']"
    using q allz getz pr by blast
qed

theorem intersectCounters_min_merge_witness:
  "(\<exists>h'. intersectCounters (Some 0) (Some 1) demo_store = Inr h'
         \<and> map fst (entries (Some 0) h') = [1, 3]
         \<and> counters_get (Some 0) 1 h' = 0
         \<and> counters_get (Some 0) 3 h' = 1
         \<and> cells h' 1 = Some [(3, 1), (7, 1)])
   \<and> (\<exists>r h'. queryEvaluate [''dog'', ''and'', ''emu''] demo_index demo_store = Inr (r, h')
         \<and> (\<forall>d. counters_get r d h' = 0)
         \<and> printRankedResults r (\<lambda>d. None) h' = Inr [''No documents match.''])"
proof -
  have h1: "cells demo_store 0 = Some [(1, 2), (3, 4)] \<and> cells demo_store 1 = Some [(3, 1), (7, 1)]
            \<and> (0::nat) \<noteq> 1 \<and> counts_ok [(1, 2), (3, 4)] \<and> counts_ok [(3, 1), (7, 1)]"
    by (simp add: demo_store_def counts_ok_def)
  have h2: "index_ok demo_index demo_store \<and> index_find demo_index ''dog'' = Some 0
            \<and> index_find demo_index ''emu'' = Some 2
            \<and> \<not> is_operator ''dog'' \<and> \<not> is_operator ''emu''
            \<and> fst ` set (entries (Some 0) demo_store) \<inter> fst ` set (entries (Some 2) demo_store) = {}"
    by (simp add: demo_index_ok)
       (simp add: demo_index_def demo_store_def index_find_def hashtable_find_def is_operator_def entries_def)
  have g: "counters_get (Some 1) 1 demo_store = 0" "counters_get (Some 1) 3 demo_store = 1"
    by (simp_all add: counters_get_def entries_def demo_store_def dc_get_def)
  note t = intersectCounters_min_merge[of demo_store 0 "[(1, 2), (3, 4)]" 1 "[(3, 1), (7, 1)]"
      demo_index "''dog''" 0 "''emu''" 2 "\<lambda>d. None"]
  from t[THEN conjunct1, rule_format, OF h1] obtain h' where i:
    "intersectCounters (Some 0) (Some 1) demo_store = Inr h'"
    "map fst (entries (Some 0) h') = [1, 3]"
    "\<forall>(d, c)\<in>set [(1, 2), (3, 4)]. counters_get (Some 0) d h' = min c (counters_get (Some 1) d demo_store)"
    "\<forall>b. b \<noteq> 0 \<longrightarrow> cells h' b = cells demo_store b"
    by auto
  have "counters_get (Some 0) 1 h' = 0" "counters_get (Some 0) 3 h' = 1"
    using i(3) g by simp_all
  moreover have "cells h' 1 = Some [(3, 1), (7, 1)]"
    using i(4) by (simp add: demo_store_def)
  ultimately have p1: "\<exists>h'. intersectCounters (Some 0) (Some 1) demo_store = Inr h'
         \<and> map fst (entries (Some 0) h') = [1, 3]
         \<and> counters_get (Some 0) 1 h' = 0
         \<and> counters_get (Some 0) 3 h' = 1
         \<and> cells h' 1 = Some [(3, 1), (7, 1)]"
    using i(1,2) by (intro exI[of _ h']) simp
  from t[THEN conjunct2, rule_format, OF h2]
  have p2: "\<exists>r h'. queryEvaluate [''dog'', ''and'', ''emu''] demo_index demo_store = Inr (r, h')
         \<and> (\<forall>d. counters_get r d h' = 0)
         \<and> printRankedResults r (\<lambda>d. None) h' = Inr [''No documents match.'']"
    by blast
  from p1 p2 show ?thesis by (rule conjI)
qed

subsection \<open>OR by sum\<close>

lemma evaluate_int_or2:
  assumes "\<not> is_operator w1" "\<not> is_operator w2" "lookup w1 = Some m1" "lookup w2 = Some m2"
  shows "evaluate_int [w1, ''or'', w2] lookup
         = Some (sumMergeInto_int (sumMergeInto_int Map.empty (sumMergeInto_int Map.empty m1))
                                  (sumMergeInto_int Map.empty m2))"
  using assms
  by (simp add: evaluate_int_def is_operator_def chainComplete_int_def)

lemma sumMergeInto_int_at:
  "src d = Some c \<Longrightarrow> 0 \<le> spec_get dst d + c \<Longrightarrow> spec_get dst d + c \<le> INT_MAX \<Longrightarrow>
   sumMergeInto_int dst src d = Some (spec_get dst d + c)"
  by (simp add: sumMergeInto_int_def int_wrap_nonneg Let_def)

text \<open>
  Claim C3. On well-formed counters at different addresses, and when every sum
  \<open>counters_get dst d + c\<close> fits an \<^verbatim>\<open>int\<close>, \<^verbatim>\<open>unionCounters(dst, src)\<close> sets the count of every
  entry \<open>(d, c)\<close> of \<^verbatim>\<open>src\<close> to \<open>counters_get dst d + c\<close> in \<^verbatim>\<open>dst\<close>, creating the entry if
  \<^verbatim>\<open>dst\<close> lacks it; the documents of \<^verbatim>\<open>dst\<close> afterwards are those of both, a document that
  \<^verbatim>\<open>src\<close> lacks keeps its count, and no other object changes. Consequently, if \<open>w1\<close>
  matches document \<open>d\<close> with count \<open>c1\<close> and \<open>w2\<close> matches it with count \<open>c2\<close> (document 5 with
  counts 2 and 3, say) and \<open>c1 + c2\<close> fits an \<^verbatim>\<open>int\<close>, the query "w1 or w2" yields \<open>d\<close> with
  score \<open>c1 + c2\<close> (document 5 with score 5).
\<close>

theorem unionCounters_sum_merge:
  "(cells h r = Some R \<and> cells h s = Some S \<and> r \<noteq> s \<and> counts_ok R \<and> counts_ok S
      \<and> (\<forall>(d, c)\<in>set S. counters_get (Some r) d h + c \<le> INT_MAX) \<longrightarrow>
      (let h' = unionCounters (Some r) (Some s) h in
         (\<forall>(d, c)\<in>set S. counters_get (Some r) d h' = counters_get (Some r) d h + c)
         \<and> fst ` set (entries (Some r) h') = fst ` set R \<union> fst ` set S
         \<and> (\<forall>d. d \<notin> fst ` set S \<longrightarrow> counters_get (Some r) d h' = counters_get (Some r) d h)
         \<and> (\<forall>b. b \<noteq> r \<longrightarrow> cells h' b = cells h b)))
   \<and> (index_ok index h \<and> index_find index w1 = Some p1 \<and> index_find index w2 = Some p2
        \<and> \<not> is_operator w1 \<and> \<not> is_operator w2
        \<and> (d, c1) \<in> set (entries (Some p1) h) \<and> (d, c2) \<in> set (entries (Some p2) h)
        \<and> c1 + c2 \<le> INT_MAX \<longrightarrow>
      (\<exists>res h'. queryEvaluate [w1, ''or'', w2] index h = Inr (res, h')
         \<and> counters_get res d h' = c1 + c2
         \<and> (d, c1 + c2) \<in> set (entries res h')))"
proof (intro conjI impI)
  assume asm: "cells h r = Some R \<and> cells h s = Some S \<and> r \<noteq> s \<and> counts_ok R \<and> counts_ok S
      \<and> (\<forall>(d, c)\<in>set S. counters_get (Some r) d h + c \<le> INT_MAX)"
  then have R: "cells h r = Some R" and S: "cells h s = Some S" and rs: "r \<noteq> s"
    and gR: "counts_ok R" and gS: "counts_ok S"
    and fit: "\<forall>(d, c)\<in>set S. counters_get (Some r) d h + c \<le> INT_MAX" by simp_all
  define R' where "R' = foldl (sum_step S) R (map fst S)"
  define h' where "h' = h\<lparr>cells := (cells h)(r \<mapsto> R')\<rparr>"
  have u: "unionCounters (Some r) (Some s) h = h'"
    using unionCounters_Some[OF R S rs] by (simp add: R'_def h'_def)
  have e: "entries (Some r) h' = R'" by (simp add: entries_def h'_def)
  have dS: "distinct (map fst S)" using gS by (simp add: counts_ok_def)
  have fk: "\<forall>k\<in>set (map fst S). dc_get R k + dc_get S k \<le> INT_MAX"
  proof
    fix k assume "k \<in> set (map fst S)"
    then obtain c where kc: "(k, c) \<in> set S" by auto
    have "dc_get S k = c" using dc_get_entry[OF dS kc] .
    moreover have "counters_get (Some r) k h + c \<le> INT_MAX" using fit kc by auto
    ultimately show "dc_get R k + dc_get S k \<le> INT_MAX"
      using R by (simp add: counters_get_Some)
  qed
  have g: "dc_get R' d = (if d \<in> fst ` set S then dc_get R d + dc_get S d else dc_get R d)" for d
    unfolding R'_def using dc_get_fold_sum[OF gR gS dS fk, of d] by simp
  have v: "counters_get (Some r) d h' = counters_get (Some r) d h + c" if "(d, c) \<in> set S" for d c
  proof -
    have "d \<in> fst ` set S" using that by force
    moreover have "dc_get S d = c" using dc_get_entry[OF dS that] .
    ultimately show ?thesis using g[of d] R e by (simp add: counters_get_def entries_Some)
  qed
  have k: "fst ` set (entries (Some r) h') = fst ` set R \<union> fst ` set S"
    unfolding e R'_def using keys_fold_sum[OF gR gS dS fk] by simp
  have n: "counters_get (Some r) d h' = counters_get (Some r) d h" if "d \<notin> fst ` set S" for d
    using that g[of d] R e by (simp add: counters_get_def entries_Some)
  have o: "\<forall>b. b \<noteq> r \<longrightarrow> cells h' b = cells h b" by (simp add: h'_def)
  show "let h' = unionCounters (Some r) (Some s) h in
         (\<forall>(d, c)\<in>set S. counters_get (Some r) d h' = counters_get (Some r) d h + c)
         \<and> fst ` set (entries (Some r) h') = fst ` set R \<union> fst ` set S
         \<and> (\<forall>d. d \<notin> fst ` set S \<longrightarrow> counters_get (Some r) d h' = counters_get (Some r) d h)
         \<and> (\<forall>b. b \<noteq> r \<longrightarrow> cells h' b = cells h b)"
    unfolding Let_def u
  proof (intro conjI)
    show "\<forall>(d, c)\<in>set S. counters_get (Some r) d h' = counters_get (Some r) d h + c"
      using v by blast
    show "\<forall>d. d \<notin> fst ` set S \<longrightarrow> counters_get (Some r) d h' = counters_get (Some r) d h"
      using n by blast
  qed (rule k o)+
next
  assume asm: "index_ok index h \<and> index_find index w1 = Some p1 \<and> index_find index w2 = Some p2
        \<and> \<not> is_operator w1 \<and> \<not> is_operator w2
        \<and> (d, c1) \<in> set (entries (Some p1) h) \<and> (d, c2) \<in> set (entries (Some p2) h)
        \<and> c1 + c2 \<le> INT_MAX"
  then have ok: "index_ok index h" and f1: "index_find index w1 = Some p1"
    and f2: "index_find index w2 = Some p2" and n1: "\<not> is_operator w1" and n2: "\<not> is_operator w2"
    and e1: "(d, c1) \<in> set (entries (Some p1) h)" and e2: "(d, c2) \<in> set (entries (Some p2) h)"
    and fit: "c1 + c2 \<le> INT_MAX"
    by simp_all
  from index_ok_find[OF ok f1] obtain P1 where P1: "cells h p1 = Some P1" "counts_ok P1" by blast
  from index_ok_find[OF ok f2] obtain P2 where P2: "cells h p2 = Some P2" "counts_ok P2" by blast
  have l1: "index_counts index h w1 = Some (map_of P1)"
    using f1 P1 by (simp add: index_counts_def entries_Some)
  have l2: "index_counts index h w2 = Some (map_of P2)"
    using f2 P2 by (simp add: index_counts_def entries_Some)
  from queryEvaluate_refines[OF index_ok_lookup[OF ok], of "[w1, ''or'', w2]"]
  obtain res h' where q: "queryEvaluate [w1, ''or'', w2] index h = Inr (res, h')"
    and rep: "represents h' res
        (Some (sumMergeInto_int
                 (sumMergeInto_int Map.empty (sumMergeInto_int Map.empty (map_of P1)))
                 (sumMergeInto_int Map.empty (map_of P2))))"
    using evaluate_int_or2[OF n1 n2 l1 l2] by auto
  from represents_Some[OF rep] obtain a c where
    c: "res = Some a" "cells h' a = Some c" "counts_ok c"
       "map_of c = sumMergeInto_int
                     (sumMergeInto_int Map.empty (sumMergeInto_int Map.empty (map_of P1)))
                     (sumMergeInto_int Map.empty (map_of P2))" by blast
  have m1: "map_of P1 d = Some c1"
    using e1 P1 by (simp add: entries_Some counts_ok_def)
  have m2: "map_of P2 d = Some c2"
    using e2 P2 by (simp add: entries_Some counts_ok_def)
  have nn: "0 \<le> c1" "0 \<le> c2"
    using e1 e2 P1 P2 by (auto simp: entries_Some counts_ok_def)
  have b1: "c1 \<le> INT_MAX" "c2 \<le> INT_MAX" using nn fit by simp_all
  have s1: "sumMergeInto_int Map.empty (map_of P1) d = Some c1"
    using sumMergeInto_int_at[of "map_of P1" d c1 Map.empty] m1 nn b1 by (simp add: spec_get_def)
  have s2: "sumMergeInto_int Map.empty (map_of P2) d = Some c2"
    using sumMergeInto_int_at[of "map_of P2" d c2 Map.empty] m2 nn b1 by (simp add: spec_get_def)
  have s3: "sumMergeInto_int Map.empty (sumMergeInto_int Map.empty (map_of P1)) d = Some c1"
    using sumMergeInto_int_at[of "sumMergeInto_int Map.empty (map_of P1)" d c1 Map.empty] s1 nn b1
    by (simp add: spec_get_def)
  have "map_of c d = Some (c1 + c2)"
    unfolding c(4)
    using sumMergeInto_int_at[of "sumMergeInto_int Map.empty (map_of P2)" d c2
        "sumMergeInto_int Map.empty (sumMergeInto_int Map.empty (map_of P1))"] s2 s3 nn fit
    by (simp add: spec_get_def)
  then have "counters_get res d h' = c1 + c2" "(d, c1 + c2) \<in> set (entries res h')"
    using c(1,2) by (auto simp: counters_get_def entries_Some dc_get_def dest: map_of_SomeD)
  with q show "\<exists>res h'. queryEvaluate [w1, ''or'', w2] index h = Inr (res, h')
         \<and> counters_get res d h' = c1 + c2
         \<and> (d, c1 + c2) \<in> set (entries res h')"
    by blast
qed

theorem unionCounters_sum_merge_witness:
  "counters_get (Some 0) 3 (unionCounters (Some 0) (Some 1) demo_store) = 5
   \<and> counters_get (Some 0) 7 (unionCounters (Some 0) (Some 1) demo_store) = 1
   \<and> counters_get (Some 0) 1 (unionCounters (Some 0) (Some 1) demo_store) = 2
   \<and> fst ` set (entries (Some 0) (unionCounters (Some 0) (Some 1) demo_store)) = {1, 3, 7}
   \<and> cells (unionCounters (Some 0) (Some 1) demo_store) 1 = Some [(3, 1), (7, 1)]
   \<and> (\<exists>res h'. queryEvaluate [''emu'', ''or'', ''fox''] demo_index demo_store = Inr (res, h')
         \<and> counters_get res 5 h' = 5
         \<and> (5, 5) \<in> set (entries res h'))"
proof -
  have g: "counters_get (Some 0) 3 demo_store = 4" "counters_get (Some 0) 7 demo_store = 0"
     "counters_get (Some 0) 1 demo_store = 2"
    by (simp_all add: counters_get_def entries_def demo_store_def dc_get_def)
  have h1: "cells demo_store 0 = Some [(1, 2), (3, 4)] \<and> cells demo_store 1 = Some [(3, 1), (7, 1)]
            \<and> (0::nat) \<noteq> 1 \<and> counts_ok [(1, 2), (3, 4)] \<and> counts_ok [(3, 1), (7, 1)]
            \<and> (\<forall>(d, c)\<in>set [(3, 1), (7, 1)]. counters_get (Some 0) d demo_store + c \<le> INT_MAX)"
    using g by (simp add: demo_store_def counts_ok_def INT_MAX_def)
  have h2: "index_ok demo_index demo_store \<and> index_find demo_index ''emu'' = Some 2
            \<and> index_find demo_index ''fox'' = Some 3
            \<and> \<not> is_operator ''emu'' \<and> \<not> is_operator ''fox''
            \<and> (5, 2) \<in> set (entries (Some 2) demo_store) \<and> (5, 3) \<in> set (entries (Some 3) demo_store)
            \<and> (2::int) + 3 \<le> INT_MAX"
    by (simp add: demo_index_ok INT_MAX_def)
       (simp add: demo_index_def demo_store_def index_find_def hashtable_find_def is_operator_def entries_def)
  note t = unionCounters_sum_merge[of demo_store 0 "[(1, 2), (3, 4)]" 1 "[(3, 1), (7, 1)]"
      demo_index "''emu''" 2 "''fox''" 3 5 2 3]
  let ?h = "unionCounters (Some 0) (Some 1) demo_store"
  note i = t[THEN conjunct1, rule_format, OF h1, unfolded Let_def]
  have "counters_get (Some 0) 3 ?h = 5" "counters_get (Some 0) 7 ?h = 1"
    using i[THEN conjunct1] g by simp_all
  moreover have "counters_get (Some 0) 1 ?h = 2"
    using i[THEN conjunct2, THEN conjunct2, THEN conjunct1, rule_format, of 1] g by simp
  moreover have "fst ` set (entries (Some 0) ?h) = {1, 3, 7}"
    using i[THEN conjunct2, THEN conjunct1] by auto
  moreover have "cells ?h 1 = Some [(3, 1), (7, 1)]"
    using i[THEN conjunct2, THEN conjunct2, THEN conjunct2, rule_format, of 1]
    by (simp add: demo_store_def)
  moreover from t[THEN conjunct2, rule_format, OF h2]
  have "\<exists>res h'. queryEvaluate [''emu'', ''or'', ''fox''] demo_index demo_store = Inr (res, h')
         \<and> counters_get res 5 h' = 5
         \<and> (5, 5) \<in> set (entries res h')"
    by simp
  ultimately show ?thesis by (intro conjI)
qed

subsection \<open>Precedence of AND over OR\<close>

lemma sumMergeInto_empty_right: "sumMergeInto m Map.empty = m"
  by (rule ext) (simp add: sumMergeInto_def)

lemma evaluate_precedence:
  assumes "\<not> is_operator a" "\<not> is_operator b" "\<not> is_operator c"
  shows "(case evaluate [a, ''or'', b, ''and'', c] lookup of None \<Rightarrow> Map.empty | Some m \<Rightarrow> m)
         = sumMergeInto (case evaluate [a] lookup of None \<Rightarrow> Map.empty | Some m \<Rightarrow> m)
                        (case evaluate [b, ''and'', c] lookup of None \<Rightarrow> Map.empty | Some m \<Rightarrow> m)"
  using assms
  by (cases "lookup a"; cases "lookup b"; cases "lookup c")
     (simp_all add: evaluate_def is_operator_def chainComplete_def sumMergeInto_empty
        sumMergeInto_empty_right)

text \<open>The score that a DocCounts, which may be absent, gives a document.\<close>

definition score_of :: "docCounts option \<Rightarrow> int \<Rightarrow> int" where
  "score_of m d = (case m of None \<Rightarrow> 0 | Some x \<Rightarrow> spec_get x d)"

lemma counters_get_index_counts:
  "counters_get (index_find index w) d h = score_of (index_counts index h w) d"
  by (simp add: counters_get_def index_counts_def score_of_def spec_get_map_of entries_def dc_get_def
      split: option.splits)

lemma represents_get: "represents h r m \<Longrightarrow> counters_get r d h = score_of m d"
  by (cases r)
     (auto simp: represents_def counters_get_def entries_def score_of_def spec_get_map_of dc_get_def)

lemma minMergeInto_Some:
  "minMergeInto mb mc d = Some v \<Longrightarrow> \<exists>c0. mb d = Some c0 \<and> v = min c0 (spec_get mc d)"
  by (auto simp: minMergeInto_def split: option.splits)

lemma spec_get_nonneg:
  "(\<And>d c. m d = Some c \<Longrightarrow> 0 \<le> c) \<Longrightarrow> 0 \<le> spec_get m d"
  by (auto simp: spec_get_def split: option.splits)

lemma spec_get_minMergeInto:
  assumes "\<And>d c. mc d = Some c \<Longrightarrow> 0 \<le> c"
  shows "spec_get (minMergeInto mb mc) d = min (spec_get mb d) (spec_get mc d)"
  using spec_get_nonneg[of mc d, OF assms]
  by (auto simp: minMergeInto_def spec_get_def split: option.splits)

lemma spec_get_sumMergeInto:
  "spec_get (sumMergeInto dst src) d = spec_get dst d + spec_get src d"
  by (auto simp: sumMergeInto_def spec_get_def split: option.splits)

text \<open>
  The scores the specification's machine gives for the three queries, in terms of the
  postings of the words.
\<close>

lemma evaluate_precedence_scores:
  assumes "\<not> is_operator a" "\<not> is_operator b" "\<not> is_operator c"
    and nn: "\<And>w m d n. lookup w = Some m \<Longrightarrow> m d = Some n \<Longrightarrow> 0 \<le> n"
  shows "score_of (evaluate [a] lookup) d = score_of (lookup a) d"
    and "score_of (evaluate [b, ''and'', c] lookup) d
         = min (score_of (lookup b) d) (score_of (lookup c) d)"
    and "score_of (evaluate [a, ''or'', b, ''and'', c] lookup) d
         = score_of (lookup a) d + min (score_of (lookup b) d) (score_of (lookup c) d)"
proof -
  have g: "0 \<le> score_of (lookup w) d" for w
  proof (cases "lookup w")
    case None
    then show ?thesis by (simp add: score_of_def)
  next
    case (Some m)
    then show ?thesis using spec_get_nonneg[of m d] nn[OF Some] by (simp add: score_of_def)
  qed
  have mn: "spec_get (minMergeInto mb mc) d = min (spec_get mb d) (spec_get mc d)"
    if "lookup c = Some mc" for mb mc
    by (rule spec_get_minMergeInto) (rule nn[OF that])
  show "score_of (evaluate [a] lookup) d = score_of (lookup a) d"
    using assms(1)
    by (cases "lookup a")
       (simp_all add: evaluate_def is_operator_def chainComplete_def sumMergeInto_empty score_of_def)
  show "score_of (evaluate [b, ''and'', c] lookup) d
         = min (score_of (lookup b) d) (score_of (lookup c) d)"
    using assms(2,3) g[of b] g[of c] mn
    by (cases "lookup b"; cases "lookup c")
       (simp_all add: evaluate_def is_operator_def chainComplete_def sumMergeInto_empty score_of_def)
  show "score_of (evaluate [a, ''or'', b, ''and'', c] lookup) d
         = score_of (lookup a) d + min (score_of (lookup b) d) (score_of (lookup c) d)"
    using assms(1-3) g[of b] g[of c] mn
    by (cases "lookup a"; cases "lookup b"; cases "lookup c")
       (simp_all add: evaluate_def is_operator_def chainComplete_def sumMergeInto_empty score_of_def
          spec_get_sumMergeInto)
qed

text \<open>
  When the counts of the index and the scores of "a or b and c" fit an \<^verbatim>\<open>int\<close>, the machine
  with \<^verbatim>\<open>int\<close> sums computes what the specification's machine computes.
\<close>

lemma evaluate_int_precedence:
  assumes "\<not> is_operator a" "\<not> is_operator b" "\<not> is_operator c"
    and fits: "\<And>w m d n. lookup w = Some m \<Longrightarrow> m d = Some n \<Longrightarrow> 0 \<le> n \<and> n \<le> INT_MAX"
    and bound: "\<And>d. score_of (lookup a) d + min (score_of (lookup b) d) (score_of (lookup c) d)
                   \<le> INT_MAX"
  shows "evaluate_int [a] lookup = evaluate [a] lookup"
    and "evaluate_int [b, ''and'', c] lookup = evaluate [b, ''and'', c] lookup"
    and "evaluate_int [a, ''or'', b, ''and'', c] lookup = evaluate [a, ''or'', b, ''and'', c] lookup"
proof -
  have cp: "sumMergeInto_int Map.empty m = m" if "lookup w = Some m" for w m
    by (rule sumMergeInto_int_empty) (rule fits[OF that])
  have mm: "sumMergeInto_int Map.empty (minMergeInto mb mc) = minMergeInto mb mc"
    if lb: "lookup b = Some mb" and lc: "lookup c = Some mc" for mb mc
  proof (rule sumMergeInto_int_empty)
    fix d v assume "minMergeInto mb mc d = Some v"
    from minMergeInto_Some[OF this] obtain c0 where
      c0: "mb d = Some c0" "v = min c0 (spec_get mc d)" by blast
    have "0 \<le> spec_get mc d" using spec_get_nonneg[of mc d] fits[OF lc] by blast
    then show "0 \<le> v \<and> v \<le> INT_MAX" using fits[OF lb c0(1)] c0(2) by (simp add: min_def)
  qed
  have fin: "sumMergeInto_int ma (minMergeInto mb mc) = sumMergeInto ma (minMergeInto mb mc)"
    if la: "lookup a = Some ma" and lb: "lookup b = Some mb" and lc: "lookup c = Some mc"
    for ma mb mc
  proof (rule sumMergeInto_int_eq)
    fix d v assume "minMergeInto mb mc d = Some v"
    from minMergeInto_Some[OF this] obtain c0 where
      c0: "mb d = Some c0" "v = min c0 (spec_get mc d)" by blast
    have 1: "0 \<le> spec_get mc d" using spec_get_nonneg[of mc d] fits[OF lc] by blast
    have 2: "0 \<le> spec_get ma d" using spec_get_nonneg[of ma d] fits[OF la] by blast
    have 3: "0 \<le> c0" using fits[OF lb c0(1)] by simp
    have "spec_get ma d + min (spec_get mb d) (spec_get mc d) \<le> INT_MAX"
      using bound[of d] la lb lc by (simp add: score_of_def)
    moreover have "spec_get mb d = c0" using c0(1) by (simp add: spec_get_def)
    ultimately show "0 \<le> spec_get ma d + v \<and> spec_get ma d + v \<le> INT_MAX"
      using 1 2 3 c0(2) by (simp add: min_def)
  qed
  show "evaluate_int [a] lookup = evaluate [a] lookup"
  proof (cases "lookup a")
    case None
    then show ?thesis using assms(1)
      by (simp add: evaluate_int_def evaluate_def is_operator_def chainComplete_int_def chainComplete_def)
  next
    case (Some ma)
    then show ?thesis using assms(1) cp[OF Some]
      by (simp add: evaluate_int_def evaluate_def is_operator_def chainComplete_int_def
          chainComplete_def sumMergeInto_empty)
  qed
  show "evaluate_int [b, ''and'', c] lookup = evaluate [b, ''and'', c] lookup"
  proof (cases "lookup b")
    case None
    then show ?thesis using assms(2,3)
      by (simp add: evaluate_int_def evaluate_def is_operator_def chainComplete_int_def chainComplete_def)
  next
    case lb: (Some mb)
    show ?thesis
    proof (cases "lookup c")
      case None
      then show ?thesis using assms(2,3) lb
        by (simp add: evaluate_int_def evaluate_def is_operator_def chainComplete_int_def
            chainComplete_def)
    next
      case lc: (Some mc)
      show ?thesis using assms(2,3) lb lc cp[OF lb] mm[OF lb lc]
        by (simp add: evaluate_int_def evaluate_def is_operator_def chainComplete_int_def
            chainComplete_def sumMergeInto_empty)
    qed
  qed
  show "evaluate_int [a, ''or'', b, ''and'', c] lookup = evaluate [a, ''or'', b, ''and'', c] lookup"
  proof (cases "lookup b")
    case None
    show ?thesis
    proof (cases "lookup a")
      case N: None
      then show ?thesis using assms(1-3) None
        by (simp add: evaluate_int_def evaluate_def is_operator_def chainComplete_int_def
            chainComplete_def)
    next
      case la: (Some ma)
      then show ?thesis using assms(1-3) None cp[OF la]
        by (simp add: evaluate_int_def evaluate_def is_operator_def chainComplete_int_def
            chainComplete_def sumMergeInto_empty)
    qed
  next
    case lb: (Some mb)
    show ?thesis
    proof (cases "lookup c")
      case None
      show ?thesis
      proof (cases "lookup a")
        case N: None
        then show ?thesis using assms(1-3) None lb
          by (simp add: evaluate_int_def evaluate_def is_operator_def chainComplete_int_def
              chainComplete_def)
      next
        case la: (Some ma)
        then show ?thesis using assms(1-3) None lb cp[OF la]
          by (simp add: evaluate_int_def evaluate_def is_operator_def chainComplete_int_def
              chainComplete_def sumMergeInto_empty)
      qed
    next
      case lc: (Some mc)
      show ?thesis
      proof (cases "lookup a")
        case N: None
        then show ?thesis using assms(1-3) lb lc cp[OF lb] mm[OF lb lc]
          by (simp add: evaluate_int_def evaluate_def is_operator_def chainComplete_int_def
              chainComplete_def sumMergeInto_empty)
      next
        case la: (Some ma)
        then show ?thesis using assms(1-3) lb lc cp[OF la] cp[OF lb] fin[OF la lb lc]
          by (simp add: evaluate_int_def evaluate_def is_operator_def chainComplete_int_def
              chainComplete_def sumMergeInto_empty)
      qed
    qed
  qed
qed

lemma index_counts_fits:
  assumes "index_ok index h" "\<forall>w d. counters_get (index_find index w) d h \<le> INT_MAX"
    and "index_counts index h w = Some m" "m d = Some n"
  shows "0 \<le> n \<and> n \<le> INT_MAX"
proof -
  from assms(3) obtain p where p: "index_find index w = Some p" "m = map_of (entries (Some p) h)"
    by (auto simp: index_counts_def split: option.splits)
  from index_ok_find[OF assms(1) p(1)] obtain c where c: "cells h p = Some c" "counts_ok c" by blast
  have e: "entries (Some p) h = c" using c(1) by (rule entries_Some)
  have mem: "(d, n) \<in> set c" using assms(4) p(2) e by (auto dest: map_of_SomeD)
  have "dc_get c d = n" using dc_get_entry[OF _ mem] c(2) by (simp add: counts_ok_def)
  then have "counters_get (index_find index w) d h = n"
    using p(1) e by (simp add: counters_get_def)
  then have "n \<le> INT_MAX" using assms(2) by metis
  moreover have "0 \<le> n" using c(2) mem by (auto simp: counts_ok_def)
  ultimately show ?thesis by simp
qed

text \<open>
  Claim C4. On a well-formed index whose counts fit an \<^verbatim>\<open>int\<close>, for search words \<open>a\<close>, \<open>b\<close>,
  \<open>c\<close> (none of them an operator) and when the scores of "a or b and c" fit an \<^verbatim>\<open>int\<close>: the
  query "a" gives every document the count of \<open>a\<close> in the index (0 if \<open>a\<close> or the document
  is absent), "b and c" gives it the minimum of the counts of \<open>b\<close> and \<open>c\<close>, and
  "a or b and c" gives it the sum of the two, the count of \<open>a\<close> plus the minimum of the
  counts of \<open>b\<close> and \<open>c\<close>; the entries of its result are the sum-merge of the entries of the
  results of "a" and of "b and c". AND binds tighter than OR. The result is not that of
  "(a or b) and c", the minimum of the sum of the counts of \<open>a\<close> and \<open>b\<close> with the count of
  \<open>c\<close>: on the index above, "dog or cat and emu" gives document 1 the score 2, where that
  minimum is 0.
\<close>

theorem or_and_precedence:
  "(index_ok index h \<and> (\<forall>w d. counters_get (index_find index w) d h \<le> INT_MAX)
      \<and> \<not> is_operator a \<and> \<not> is_operator b \<and> \<not> is_operator c
      \<and> (\<forall>d. counters_get (index_find index a) d h
               + min (counters_get (index_find index b) d h) (counters_get (index_find index c) d h)
             \<le> INT_MAX) \<longrightarrow>
      (\<exists>r h' ra ha rbc hbc.
         queryEvaluate [a, ''or'', b, ''and'', c] index h = Inr (r, h')
         \<and> queryEvaluate [a] index h = Inr (ra, ha)
         \<and> queryEvaluate [b, ''and'', c] index h = Inr (rbc, hbc)
         \<and> (\<forall>d. counters_get ra d ha = counters_get (index_find index a) d h)
         \<and> (\<forall>d. counters_get rbc d hbc
                 = min (counters_get (index_find index b) d h) (counters_get (index_find index c) d h))
         \<and> (\<forall>d. counters_get r d h'
                 = counters_get (index_find index a) d h
                   + min (counters_get (index_find index b) d h)
                         (counters_get (index_find index c) d h))
         \<and> map_of (entries r h') = sumMergeInto (map_of (entries ra ha)) (map_of (entries rbc hbc))))
   \<and> (\<exists>r h'.
         queryEvaluate [''dog'', ''or'', ''cat'', ''and'', ''emu''] demo_index demo_store = Inr (r, h')
         \<and> counters_get r 1 h' = 2
         \<and> min (counters_get (index_find demo_index ''dog'') 1 demo_store
                 + counters_get (index_find demo_index ''cat'') 1 demo_store)
                (counters_get (index_find demo_index ''emu'') 1 demo_store) = 0)"
proof -
  have gen: "\<exists>r h' ra ha rbc hbc.
         queryEvaluate [a, ''or'', b, ''and'', c] index h = Inr (r, h')
         \<and> queryEvaluate [a] index h = Inr (ra, ha)
         \<and> queryEvaluate [b, ''and'', c] index h = Inr (rbc, hbc)
         \<and> (\<forall>d. counters_get ra d ha = counters_get (index_find index a) d h)
         \<and> (\<forall>d. counters_get rbc d hbc
                 = min (counters_get (index_find index b) d h) (counters_get (index_find index c) d h))
         \<and> (\<forall>d. counters_get r d h'
                 = counters_get (index_find index a) d h
                   + min (counters_get (index_find index b) d h)
                         (counters_get (index_find index c) d h))
         \<and> map_of (entries r h') = sumMergeInto (map_of (entries ra ha)) (map_of (entries rbc hbc))"
    if iok: "index_ok index h"
      and fit: "\<forall>w d. counters_get (index_find index w) d h \<le> INT_MAX"
      and ops: "\<not> is_operator a" "\<not> is_operator b" "\<not> is_operator c"
      and bnd: "\<forall>d. counters_get (index_find index a) d h
               + min (counters_get (index_find index b) d h) (counters_get (index_find index c) d h)
             \<le> INT_MAX"
    for index h a b c
  proof -
    let ?l = "index_counts index h"
    have ok: "lookup_ok (nxt h) index h" using iok by (rule index_ok_lookup)
    have fits: "0 \<le> n \<and> n \<le> INT_MAX" if "?l w = Some m" "m d = Some n" for w m d n
      using index_counts_fits[OF iok fit that] .
    have nn: "0 \<le> n" if "?l w = Some m" "m d = Some n" for w m d n
      using fits[OF that] by simp
    have bound: "score_of (?l a) d + min (score_of (?l b) d) (score_of (?l c) d) \<le> INT_MAX" for d
      using bnd by (simp add: counters_get_index_counts)
    note ei = evaluate_int_precedence[of a b c ?l, OF ops fits bound]
    note sc = evaluate_precedence_scores[of a b c ?l, OF ops nn]
    from queryEvaluate_refines[OF ok, of "[a, ''or'', b, ''and'', c]"]
    obtain r h' where
      1: "queryEvaluate [a, ''or'', b, ''and'', c] index h = Inr (r, h')"
         "represents h' r (evaluate_int [a, ''or'', b, ''and'', c] ?l)"
      by blast
    from queryEvaluate_refines[OF ok, of "[a]"] obtain ra ha where
      2: "queryEvaluate [a] index h = Inr (ra, ha)"
         "represents ha ra (evaluate_int [a] ?l)"
      by blast
    from queryEvaluate_refines[OF ok, of "[b, ''and'', c]"] obtain rbc hbc where
      3: "queryEvaluate [b, ''and'', c] index h = Inr (rbc, hbc)"
         "represents hbc rbc (evaluate_int [b, ''and'', c] ?l)"
      by blast
    have r1: "represents h' r (evaluate [a, ''or'', b, ''and'', c] ?l)"
      using 1(2) ei(3) by simp
    have r2: "represents ha ra (evaluate [a] ?l)"
      using 2(2) ei(1) by simp
    have r3: "represents hbc rbc (evaluate [b, ''and'', c] ?l)"
      using 3(2) ei(2) by simp
    have ga: "\<forall>d. counters_get ra d ha = counters_get (index_find index a) d h"
      using represents_get[OF r2] sc(1) by (simp add: counters_get_index_counts)
    have gbc: "\<forall>d. counters_get rbc d hbc
                 = min (counters_get (index_find index b) d h) (counters_get (index_find index c) d h)"
      using represents_get[OF r3] sc(2) by (simp add: counters_get_index_counts)
    have gr: "\<forall>d. counters_get r d h'
                 = counters_get (index_find index a) d h
                   + min (counters_get (index_find index b) d h)
                         (counters_get (index_find index c) d h)"
      using represents_get[OF r1] sc(3) by (simp add: counters_get_index_counts)
    have m: "map_of (entries r h') = sumMergeInto (map_of (entries ra ha)) (map_of (entries rbc hbc))"
      using represents_entries[OF r1] represents_entries[OF r2] represents_entries[OF r3]
        evaluate_precedence[OF ops, of ?l]
      by simp
    show ?thesis
      using 1(1) 2(1) 3(1) ga gbc gr m by blast
  qed
  have g: "counters_get (index_find demo_index w) d demo_store \<le> 4" for w d
    by (simp add: demo_index_def demo_store_def index_find_def hashtable_find_def counters_get_def
        entries_def dc_get_def)
  have g0: "0 \<le> counters_get (index_find demo_index w) d demo_store" for w d
    by (simp add: demo_index_def demo_store_def index_find_def hashtable_find_def counters_get_def
        entries_def dc_get_def)
  have fit: "\<forall>w d. counters_get (index_find demo_index w) d demo_store \<le> INT_MAX"
  proof (intro allI)
    fix w d
    show "counters_get (index_find demo_index w) d demo_store \<le> INT_MAX"
      using g[of w d] by (simp add: INT_MAX_def)
  qed
  have bnd: "\<forall>d. counters_get (index_find demo_index ''dog'') d demo_store
               + min (counters_get (index_find demo_index ''cat'') d demo_store)
                     (counters_get (index_find demo_index ''emu'') d demo_store)
             \<le> INT_MAX"
  proof
    fix d
    show "counters_get (index_find demo_index ''dog'') d demo_store
               + min (counters_get (index_find demo_index ''cat'') d demo_store)
                     (counters_get (index_find demo_index ''emu'') d demo_store)
             \<le> INT_MAX"
      using g[of "''dog''" d] g[of "''cat''" d] by (simp add: INT_MAX_def min_def)
  qed
  have ops: "\<not> is_operator ''dog''" "\<not> is_operator ''cat''" "\<not> is_operator ''emu''"
    by (simp_all add: is_operator_def)
  from gen[OF demo_index_ok fit ops bnd] obtain r h' where
    q: "queryEvaluate [''dog'', ''or'', ''cat'', ''and'', ''emu''] demo_index demo_store = Inr (r, h')"
    and v: "\<forall>d. counters_get r d h'
                 = counters_get (index_find demo_index ''dog'') d demo_store
                   + min (counters_get (index_find demo_index ''cat'') d demo_store)
                         (counters_get (index_find demo_index ''emu'') d demo_store)"
    by blast
  have e: "counters_get (index_find demo_index ''dog'') 1 demo_store = 2"
    "counters_get (index_find demo_index ''cat'') 1 demo_store = 0"
    "counters_get (index_find demo_index ''emu'') 1 demo_store = 0"
    by (simp_all add: demo_index_def demo_store_def index_find_def hashtable_find_def counters_get_def
        entries_def dc_get_def)
  have d1: "\<exists>r h'.
         queryEvaluate [''dog'', ''or'', ''cat'', ''and'', ''emu''] demo_index demo_store = Inr (r, h')
         \<and> counters_get r 1 h' = 2
         \<and> min (counters_get (index_find demo_index ''dog'') 1 demo_store
                 + counters_get (index_find demo_index ''cat'') 1 demo_store)
                (counters_get (index_find demo_index ''emu'') 1 demo_store) = 0"
    using q v e by (intro exI[of _ r] exI[of _ h']) simp
  show ?thesis
  proof (intro conjI impI)
    assume "index_ok index h \<and> (\<forall>w d. counters_get (index_find index w) d h \<le> INT_MAX)
      \<and> \<not> is_operator a \<and> \<not> is_operator b \<and> \<not> is_operator c
      \<and> (\<forall>d. counters_get (index_find index a) d h
               + min (counters_get (index_find index b) d h) (counters_get (index_find index c) d h)
             \<le> INT_MAX)"
    then show "\<exists>r h' ra ha rbc hbc.
         queryEvaluate [a, ''or'', b, ''and'', c] index h = Inr (r, h')
         \<and> queryEvaluate [a] index h = Inr (ra, ha)
         \<and> queryEvaluate [b, ''and'', c] index h = Inr (rbc, hbc)
         \<and> (\<forall>d. counters_get ra d ha = counters_get (index_find index a) d h)
         \<and> (\<forall>d. counters_get rbc d hbc
                 = min (counters_get (index_find index b) d h) (counters_get (index_find index c) d h))
         \<and> (\<forall>d. counters_get r d h'
                 = counters_get (index_find index a) d h
                   + min (counters_get (index_find index b) d h)
                         (counters_get (index_find index c) d h))
         \<and> map_of (entries r h') = sumMergeInto (map_of (entries ra ha)) (map_of (entries rbc hbc))"
      using gen[of index h a b c] by blast
  next
    show "\<exists>r h'.
         queryEvaluate [''dog'', ''or'', ''cat'', ''and'', ''emu''] demo_index demo_store = Inr (r, h')
         \<and> counters_get r 1 h' = 2
         \<and> min (counters_get (index_find demo_index ''dog'') 1 demo_store
                 + counters_get (index_find demo_index ''cat'') 1 demo_store)
                (counters_get (index_find demo_index ''emu'') 1 demo_store) = 0"
      by (rule d1)
  qed
qed

theorem or_and_precedence_witness:
  "\<exists>r h' ra ha rbc hbc.
     queryEvaluate [''dog'', ''or'', ''cat'', ''and'', ''emu''] demo_index demo_store = Inr (r, h')
     \<and> queryEvaluate [''dog''] demo_index demo_store = Inr (ra, ha)
     \<and> queryEvaluate [''cat'', ''and'', ''emu''] demo_index demo_store = Inr (rbc, hbc)
     \<and> (\<forall>d. counters_get ra d ha = counters_get (index_find demo_index ''dog'') d demo_store)
     \<and> (\<forall>d. counters_get rbc d hbc
             = min (counters_get (index_find demo_index ''cat'') d demo_store)
                   (counters_get (index_find demo_index ''emu'') d demo_store))
     \<and> (\<forall>d. counters_get r d h'
             = counters_get (index_find demo_index ''dog'') d demo_store
               + min (counters_get (index_find demo_index ''cat'') d demo_store)
                     (counters_get (index_find demo_index ''emu'') d demo_store))
     \<and> map_of (entries r h') = sumMergeInto (map_of (entries ra ha)) (map_of (entries rbc hbc))"
proof -
  have g: "counters_get (index_find demo_index w) d demo_store \<le> 4" for w d
    by (simp add: demo_index_def demo_store_def index_find_def hashtable_find_def counters_get_def
        entries_def dc_get_def)
  have fit: "\<forall>w d. counters_get (index_find demo_index w) d demo_store \<le> INT_MAX"
  proof (intro allI)
    fix w d
    show "counters_get (index_find demo_index w) d demo_store \<le> INT_MAX"
      using g[of w d] by (simp add: INT_MAX_def)
  qed
  have bnd: "\<forall>d. counters_get (index_find demo_index ''dog'') d demo_store
               + min (counters_get (index_find demo_index ''cat'') d demo_store)
                     (counters_get (index_find demo_index ''emu'') d demo_store)
             \<le> INT_MAX"
  proof
    fix d
    show "counters_get (index_find demo_index ''dog'') d demo_store
               + min (counters_get (index_find demo_index ''cat'') d demo_store)
                     (counters_get (index_find demo_index ''emu'') d demo_store)
             \<le> INT_MAX"
      using g[of "''dog''" d] g[of "''cat''" d] by (simp add: INT_MAX_def min_def)
  qed
  have hyp: "index_ok demo_index demo_store
      \<and> (\<forall>w d. counters_get (index_find demo_index w) d demo_store \<le> INT_MAX)
      \<and> \<not> is_operator ''dog'' \<and> \<not> is_operator ''cat'' \<and> \<not> is_operator ''emu''
      \<and> (\<forall>d. counters_get (index_find demo_index ''dog'') d demo_store
               + min (counters_get (index_find demo_index ''cat'') d demo_store)
                     (counters_get (index_find demo_index ''emu'') d demo_store)
             \<le> INT_MAX)"
    using demo_index_ok fit bnd by (simp add: is_operator_def)
  show ?thesis
    by (rule or_and_precedence[of demo_index demo_store "''dog''" "''cat''" "''emu''",
          THEN conjunct1, rule_format, OF hyp])
qed

subsection \<open>A query without a match\<close>

text \<open>
  The AND-chains of a query: the runs of tokens between the \<open>or\<close> tokens. A chain fails
  when one of its search words is not in the index.
\<close>

fun chains :: "string list \<Rightarrow> string list list" where
  "chains [] = [[]]"
| "chains (w # ws) =
     (if w = ''or'' then [] # chains ws
      else (case chains ws of [] \<Rightarrow> [[w]] | c # cs \<Rightarrow> (w # c) # cs))"

definition chain_fails :: "index \<Rightarrow> string list \<Rightarrow> bool" where
  "chain_fails index chain = (\<exists>w\<in>set chain. w \<noteq> ''and'' \<and> index_find index w = None)"

lemma chains_nonempty: "chains ws \<noteq> []"
  by (induction ws) (auto split: list.splits)

lemma evaluator_no_match:
  assumes "bk \<longrightarrow> am = None"
    and "(\<exists>w\<in>set (hd (chains ws)). w \<noteq> ''and'' \<and> lookup w = None) \<or> (am = None \<and> bk)"
    and "\<forall>ch\<in>set (tl (chains ws)). \<exists>w\<in>set ch. w \<noteq> ''and'' \<and> lookup w = None"
  shows "evaluator_int ws lookup am None bk = (None, None)"
  using assms
proof (induction ws arbitrary: am bk)
  case Nil
  then show ?case by simp
next
  case (Cons w ws)
  obtain c cs where cc: "chains ws = c # cs"
    using chains_nonempty[of ws] by (cases "chains ws") auto
  show ?case
  proof (cases "w = ''or''")
    case True
    with Cons.prems cc have am: "am = None" by simp
    have "evaluator_int ws lookup None None False = (None, None)"
      using Cons.prems True cc by (intro Cons.IH) simp_all
    with True am show ?thesis by (simp add: chainComplete_int_def)
  next
    case notor: False
    then have ch: "chains (w # ws) = (w # c) # cs" using cc by simp
    show ?thesis
    proof (cases "w = ''and''")
      case True
      have "evaluator_int ws lookup am None bk = (None, None)"
        using Cons.prems True cc ch by (intro Cons.IH) auto
      with True show ?thesis by simp
    next
      case notand: False
      show ?thesis
      proof (cases bk)
        case True
        with Cons.prems have am: "am = None" by simp
        have "evaluator_int ws lookup am None bk = (None, None)"
          using Cons.prems True am cc ch by (intro Cons.IH) auto
        with True notor notand show ?thesis by simp
      next
        case notbk: False
        show ?thesis
        proof (cases "lookup w")
          case None
          have "evaluator_int ws lookup None None True = (None, None)"
            using Cons.prems cc ch by (intro Cons.IH) auto
          with None notor notand notbk show ?thesis by simp
        next
          case (Some m)
          have rest: "evaluator_int ws lookup (Some x) None False = (None, None)" for x
            using Cons.prems cc ch Some notbk by (intro Cons.IH) auto
          show ?thesis
            using Some notor notand notbk rest by (cases am) simp_all
        qed
      qed
    qed
  qed
qed

lemma index_counts_None: "index_counts index h w = None \<longleftrightarrow> index_find index w = None"
  by (simp add: index_counts_def split: option.splits)

text \<open>
  Claim C8, as the code has it. When every AND-chain of the query fails (in particular
  when every search word is absent from the index), \<^verbatim>\<open>queryEvaluate\<close> on a well-formed index
  returns \<^verbatim>\<open>NULL\<close>: \<^verbatim>\<open>matchMerge\<close> allocates \<^verbatim>\<open>orSequence\<close> only when a chain has matched, so no
  counters object is returned. \<^verbatim>\<open>printRankedResults\<close> takes \<^verbatim>\<open>NULL\<close> as a result without
  entries and prints "No documents match.".
\<close>

theorem queryEvaluate_no_match_is_NULL:
  assumes "index_ok index h"
    and "\<forall>chain\<in>set (chains words). chain_fails index chain"
  shows "\<exists>h'. queryEvaluate words index h = Inr (None, h')
           \<and> printRankedResults None pageDirectory h' = Inr [''No documents match.'']"
proof -
  let ?l = "index_counts index h"
  have all: "\<forall>ch\<in>set (chains words). \<exists>w\<in>set ch. w \<noteq> ''and'' \<and> ?l w = None"
    using assms(2) by (simp add: chain_fails_def index_counts_None)
  obtain c cs where cc: "chains words = c # cs"
    using chains_nonempty[of words] by (cases "chains words") auto
  have "evaluator_int words ?l None None False = (None, None)"
    using all cc by (intro evaluator_no_match) simp_all
  then have ev: "evaluate_int words ?l = None"
    by (simp add: evaluate_int_def chainComplete_int_def)
  from queryEvaluate_refines[OF index_ok_lookup[OF assms(1)], of words] obtain r h' where
    q: "queryEvaluate words index h = Inr (r, h')" and rep: "represents h' r None"
    using ev by auto
  have r: "r = None" using represents_None[OF rep] .
  have "printRankedResults None pageDirectory h' = Inr [''No documents match.'']"
    by (simp add: printRankedResults_def countNonZero_def counters_iterate_def entries_def)
  with q r show ?thesis by blast
qed

text \<open>
  The specification has \<^verbatim>\<open>queryEvaluate\<close> return an empty counters object in that case.
  For the valid query "yak" on the index above it returns \<^verbatim>\<open>NULL\<close> and allocates nothing.
\<close>

theorem queryEvaluate_empty_result_counterexample:
  "index_ok demo_index demo_store \<and> isValidQuerySyntax [''yak'']
   \<and> queryEvaluate [''yak''] demo_index demo_store = Inr (None, demo_store)
   \<and> \<not> (\<exists>a h'. queryEvaluate [''yak''] demo_index demo_store = Inr (Some a, h')
            \<and> cells h' a = Some [])"
proof -
  have f: "index_find demo_index ''yak'' = None"
    by (simp add: index_find_def hashtable_find_def demo_index_def)
  have q: "queryEvaluate [''yak''] demo_index demo_store = Inr (None, demo_store)"
    using f by (simp add: queryEvaluate_def matchMerge_def)
  have v: "isValidQuerySyntax [''yak'']"
    by (simp add: isValidQuerySyntax_def is_operator_def)
  show ?thesis using q v demo_index_ok by simp
qed

theorem queryEvaluate_no_match_is_NULL_witness:
  "\<exists>h'. queryEvaluate [''dog'', ''and'', ''yak'', ''or'', ''gnu''] demo_index demo_store = Inr (None, h')
         \<and> printRankedResults None (\<lambda>d. None) h' = Inr [''No documents match.'']"
proof -
  have f: "index_find demo_index ''yak'' = None" "index_find demo_index ''gnu'' = None"
    by (simp_all add: index_find_def hashtable_find_def demo_index_def)
  have c: "\<forall>chain\<in>set (chains [''dog'', ''and'', ''yak'', ''or'', ''gnu'']). chain_fails demo_index chain"
    using f by (simp add: chain_fails_def)
  show ?thesis
    by (rule queryEvaluate_no_match_is_NULL[OF demo_index_ok c])
qed

subsection \<open>Evaluation does not write to the index\<close>

text \<open>
  \<open>touches_only p h h'\<close>: from \<open>h\<close> to \<open>h'\<close> nothing was allocated and no object other than
  the one behind \<open>p\<close> changed. \<open>accs_fresh n0\<close>: both accumulators, when allocated, have
  addresses from \<open>n0\<close> on.
\<close>

definition touches_only :: "addr option \<Rightarrow> store \<Rightarrow> store \<Rightarrow> bool" where
  "touches_only p h h' = (nxt h' = nxt h \<and> (\<forall>b. p \<noteq> Some b \<longrightarrow> cells h' b = cells h b))"

lemma touches_only_refl: "touches_only p h h"
  by (simp add: touches_only_def)

lemma touches_only_trans: "touches_only p h h1 \<Longrightarrow> touches_only p h1 h2 \<Longrightarrow> touches_only p h h2"
  by (simp add: touches_only_def)

lemma counters_set_touches: "touches_only p h (counters_set p k v h)"
  by (auto simp: touches_only_def counters_set_def split: option.splits)

lemma callbackAddCounts_eq:
  "callbackAddCounts r k v h = (r, counters_set r k (int_wrap (counters_get r k h + v)) h)"
  by (simp add: callbackAddCounts_def)

lemma callbackSetMinimum_eq:
  "callbackSetMinimum (acc, wc) k v h
   = ((acc, wc), counters_set acc k (min v (counters_get wc k h)) h)"
  by (auto simp: callbackSetMinimum_def Let_def min_def)

lemma iterate_add_touches:
  "touches_only r h (snd (iterate_keys p callbackAddCounts ks r h))"
proof (induction ks arbitrary: h)
  case Nil
  show ?case by (simp add: touches_only_refl)
next
  case (Cons k ks)
  let ?h = "counters_set r k (int_wrap (counters_get r k h + counters_get p k h)) h"
  have "touches_only r h ?h" by (rule counters_set_touches)
  moreover have "touches_only r ?h (snd (iterate_keys p callbackAddCounts ks r ?h))"
    by (rule Cons.IH)
  ultimately have "touches_only r h (snd (iterate_keys p callbackAddCounts ks r ?h))"
    by (rule touches_only_trans)
  moreover have "iterate_keys p callbackAddCounts (k # ks) r h
                 = iterate_keys p callbackAddCounts ks r ?h"
    by (simp add: callbackAddCounts_def)
  ultimately show ?case by simp
qed

lemma iterate_min_touches:
  "touches_only acc h (snd (iterate_keys p callbackSetMinimum ks (acc, wc) h))"
proof (induction ks arbitrary: h)
  case Nil
  show ?case by (simp add: touches_only_refl)
next
  case (Cons k ks)
  let ?h = "counters_set acc k (min (counters_get p k h) (counters_get wc k h)) h"
  have "touches_only acc h ?h" by (rule counters_set_touches)
  moreover have "touches_only acc ?h (snd (iterate_keys p callbackSetMinimum ks (acc, wc) ?h))"
    by (rule Cons.IH)
  ultimately have "touches_only acc h (snd (iterate_keys p callbackSetMinimum ks (acc, wc) ?h))"
    by (rule touches_only_trans)
  moreover have "iterate_keys p callbackSetMinimum (k # ks) (acc, wc) h
                 = iterate_keys p callbackSetMinimum ks (acc, wc) ?h"
    by (auto simp: callbackSetMinimum_def Let_def min_def)
  ultimately show ?case by simp
qed

lemma iterate_add_fst: "fst (iterate_keys p callbackAddCounts ks r h) = r"
proof (induction ks arbitrary: h)
  case Nil
  show ?case by simp
next
  case (Cons k ks)
  have "iterate_keys p callbackAddCounts (k # ks) r h
        = iterate_keys p callbackAddCounts ks r
            (counters_set r k (int_wrap (counters_get r k h + counters_get p k h)) h)"
    by (simp add: callbackAddCounts_def)
  then show ?case using Cons.IH by simp
qed

definition accs_fresh :: "nat \<Rightarrow> addr option \<Rightarrow> addr option \<Rightarrow> store \<Rightarrow> bool" where
  "accs_fresh n0 andS orS h =
     (n0 \<le> nxt h \<and> (\<forall>x. andS = Some x \<longrightarrow> n0 \<le> x) \<and> (\<forall>x. orS = Some x \<longrightarrow> n0 \<le> x))"

lemma touches_same_below:
  "touches_only p h h' \<Longrightarrow> (\<forall>x. p = Some x \<longrightarrow> n0 \<le> x) \<Longrightarrow> same_below n0 h h'"
  by (auto simp: touches_only_def same_below_def)

lemma unionCounters_touches: "touches_only r h (unionCounters r s h)"
  by (simp add: unionCounters_def counters_iterate_def iterate_add_touches touches_only_refl)

lemma matchMerge_fresh:
  assumes "accs_fresh n0 andS orS h"
  shows "\<exists>andS' orS' h'. matchMerge andS orS h = ((andS', orS'), h')
           \<and> accs_fresh n0 andS' orS' h' \<and> same_below n0 h h'"
proof (cases andS)
  case None
  with assms show ?thesis by (simp add: matchMerge_def same_below_refl)
next
  case (Some a)
  with assms have a: "n0 \<le> a" and n0: "n0 \<le> nxt h" by (simp_all add: accs_fresh_def)
  obtain orS1 h1 where o1: "(if orS = None then (case counters_new h of (x, h') \<Rightarrow> (Some x, h'))
               else (orS, h)) = (orS1, h1)" by fastforce
  have f1: "same_below n0 h h1" and fr1: "accs_fresh n0 None orS1 h1"
    using o1 assms n0
    by (auto simp: counters_new_def same_below_def accs_fresh_def split: if_splits)
  define h2 where "h2 = unionCounters orS1 andS h1"
  have t2: "touches_only orS1 h1 h2" unfolding h2_def by (rule unionCounters_touches)
  have f2: "same_below n0 h1 h2"
    using touches_same_below[OF t2] fr1 by (simp add: accs_fresh_def)
  define h3 where "h3 = counters_delete andS h2"
  have f3: "same_below n0 h2 h3" using Some a by (simp add: h3_def counters_delete_def same_below_def)
  have n3: "nxt h3 = nxt h1" using t2 Some by (simp add: h3_def counters_delete_def touches_only_def)
  have mm: "matchMerge andS orS h = ((None, orS1), h3)"
    using Some o1 by (simp add: matchMerge_def h2_def h3_def Let_def)
  have "accs_fresh n0 None orS1 h3" using fr1 n3 by (simp add: accs_fresh_def)
  moreover have "same_below n0 h h3" using f1 f2 f3 by (blast intro: same_below_trans)
  ultimately show ?thesis using mm by blast
qed

lemma loop_fresh:
  assumes "accs_fresh n0 andS orS h"
  shows "\<exists>andS' orS' h'. queryEvaluate_loop ws index andS orS bk h = Inr ((andS', orS'), h')
           \<and> accs_fresh n0 andS' orS' h' \<and> same_below n0 h h'"
  using assms
proof (induction ws arbitrary: andS orS bk h)
  case Nil
  then show ?case by (simp add: same_below_refl)
next
  case (Cons w ws)
  note fr = Cons.prems
  have cont: "\<exists>andS' orS' h'. queryEvaluate_loop ws index andS1 orS1 bk1 h1 = Inr ((andS', orS'), h')
           \<and> accs_fresh n0 andS' orS' h' \<and> same_below n0 h h'"
    if "accs_fresh n0 andS1 orS1 h1" "same_below n0 h h1" for andS1 orS1 bk1 h1
    using Cons.IH[OF that(1), of bk1] that(2) by (auto intro: same_below_trans)
  show ?case
  proof (cases "w = ''or''")
    case True
    from matchMerge_fresh[OF fr] obtain andS1 orS1 h1 where
      mm: "matchMerge andS orS h = ((andS1, orS1), h1)"
      and fr1: "accs_fresh n0 andS1 orS1 h1" and f1: "same_below n0 h h1" by blast
    from cont[OF fr1 f1, of False] True mm show ?thesis by simp
  next
    case notor: False
    show ?thesis
    proof (cases "bk \<or> w = ''and''")
      case True
      from cont[OF fr same_below_refl, of bk] True notor show ?thesis by auto
    next
      case False
      then have notbk: "\<not> bk" and notand: "w \<noteq> ''and''" by simp_all
      show ?thesis
      proof (cases "index_find index w")
        case None
        show ?thesis
        proof (cases andS)
          case N: None
          from cont[OF fr same_below_refl, of True] None N notor notbk notand
          show ?thesis by simp
        next
          case (Some a)
          with fr have a: "n0 \<le> a" by (simp add: accs_fresh_def)
          let ?h1 = "counters_delete andS h"
          have fr1: "accs_fresh n0 None orS ?h1"
            using fr Some by (simp add: accs_fresh_def counters_delete_def)
          have f1: "same_below n0 h ?h1"
            using Some a by (simp add: counters_delete_def same_below_def)
          from cont[OF fr1 f1, of True] None Some notor notbk notand
          show ?thesis by simp
        qed
      next
        case (Some p)
        show ?thesis
        proof (cases andS)
          case N: None
          define h1 where "h1 = snd (counters_new h)"
          define h2 where "h2 = snd (counters_iterate (Some p) (Some (nxt h)) callbackAddCounts h1)"
          have cn: "counters_new h = (nxt h, h1)" by (simp add: h1_def counters_new_def)
          have it: "counters_iterate (Some p) (Some (nxt h)) callbackAddCounts h1 = (Some (nxt h), h2)"
            unfolding h2_def counters_iterate_def
            using iterate_add_fst[of "Some p" _ "Some (nxt h)" h1] by (metis prod.collapse)
          have t: "touches_only (Some (nxt h)) h1 h2"
            unfolding h2_def counters_iterate_def by (rule iterate_add_touches)
          from fr have n0: "n0 \<le> nxt h" by (simp add: accs_fresh_def)
          have f1: "same_below n0 h h1" using n0 by (simp add: h1_def counters_new_def same_below_def)
          have f2: "same_below n0 h1 h2" using touches_same_below[OF t] n0 by simp
          have fr2: "accs_fresh n0 (Some (nxt h)) orS h2"
            using fr t n0 by (simp add: accs_fresh_def touches_only_def h1_def counters_new_def)
          from cont[OF fr2 same_below_trans[OF f1 f2], of False] Some N notor notbk notand cn it
          show ?thesis by simp
        next
          case SA: (Some a)
          define h1 where "h1 = snd (counters_iterate andS (andS, Some p) callbackSetMinimum h)"
          have ic: "intersectCounters andS (Some p) h = Inr h1"
            using SA by (simp add: intersectCounters_def h1_def)
          have t: "touches_only andS h h1"
            unfolding h1_def counters_iterate_def by (rule iterate_min_touches)
          have f1: "same_below n0 h h1"
            using touches_same_below[OF t] fr by (simp add: accs_fresh_def)
          have fr1: "accs_fresh n0 andS orS h1"
            using fr t by (simp add: accs_fresh_def touches_only_def)
          from cont[OF fr1 f1, of False] Some SA notor notbk notand ic
          show ?thesis by simp
        qed
      qed
    qed
  qed
qed

text \<open>
  Claim C9. For every query, index and store, \<^verbatim>\<open>queryEvaluate\<close> returns and leaves every
  object that existed before the call exactly as it was: it writes only to the
  accumulators it allocates itself. In particular the counters object of every indexed
  word has the same entries after the evaluation as before.
\<close>

theorem queryEvaluate_leaves_index_unchanged:
  "\<exists>r h'. queryEvaluate words index h = Inr (r, h')
     \<and> (\<forall>a<nxt h. cells h' a = cells h a)
     \<and> (\<forall>w p. index_find index w = Some p \<and> p < nxt h \<longrightarrow> entries (Some p) h' = entries (Some p) h)"
proof -
  have fr: "accs_fresh (nxt h) None None h" by (simp add: accs_fresh_def)
  from loop_fresh[OF fr, of words index False] obtain andS orS h1 where
    l: "queryEvaluate_loop words index None None False h = Inr ((andS, orS), h1)"
    and fr1: "accs_fresh (nxt h) andS orS h1" and f1: "same_below (nxt h) h h1" by blast
  from matchMerge_fresh[OF fr1] obtain andS' orS' h2 where
    m: "matchMerge andS orS h1 = ((andS', orS'), h2)" and f2: "same_below (nxt h) h1 h2" by blast
  have q: "queryEvaluate words index h = Inr (orS', h2)"
    using l m by (simp add: queryEvaluate_def)
  have f: "same_below (nxt h) h h2" using f1 f2 by (rule same_below_trans)
  then have c: "\<forall>a<nxt h. cells h2 a = cells h a" by (simp add: same_below_def)
  then have "\<forall>w p. index_find index w = Some p \<and> p < nxt h \<longrightarrow> entries (Some p) h2 = entries (Some p) h"
    by (simp add: entries_def)
  with q c show ?thesis by blast
qed

theorem queryEvaluate_leaves_index_unchanged_witness:
  "\<exists>r h'. queryEvaluate [''dog'', ''and'', ''cat'', ''or'', ''emu''] demo_index demo_store = Inr (r, h')
     \<and> cells h' 0 = Some [(1, 2), (3, 4)] \<and> cells h' 1 = Some [(3, 1), (7, 1)]
     \<and> cells h' 2 = Some [(5, 2)] \<and> cells h' 3 = Some [(5, 3)]
     \<and> entries (index_find demo_index ''dog'') h' = [(1, 2), (3, 4)]"
proof -
  from queryEvaluate_leaves_index_unchanged[of "[''dog'', ''and'', ''cat'', ''or'', ''emu'']" demo_index demo_store]
  obtain r h' where q: "queryEvaluate [''dog'', ''and'', ''cat'', ''or'', ''emu''] demo_index demo_store = Inr (r, h')"
    and c: "\<forall>a<nxt demo_store. cells h' a = cells demo_store a"
    and e: "\<forall>w p. index_find demo_index w = Some p \<and> p < nxt demo_store \<longrightarrow> entries (Some p) h' = entries (Some p) demo_store"
    by blast
  have n: "nxt demo_store = 4" by (simp add: demo_store_def)
  have "cells h' 0 = Some [(1, 2), (3, 4)]" "cells h' 1 = Some [(3, 1), (7, 1)]"
     "cells h' 2 = Some [(5, 2)]" "cells h' 3 = Some [(5, 3)]"
    using c n by (simp_all add: demo_store_def)
  moreover have "index_find demo_index ''dog'' = Some 0"
    by (simp add: index_find_def hashtable_find_def demo_index_def)
  then have "entries (index_find demo_index ''dog'') h' = [(1, 2), (3, 4)]"
    using e n by (simp add: entries_def demo_store_def)
  ultimately show ?thesis using q by blast
qed

subsection \<open>Syntax validation\<close>

lemma no_consecutive_operators_iff:
  "no_consecutive_operators words \<longleftrightarrow>
   \<not> (\<exists>i. Suc i < length words \<and> is_operator (words ! i) \<and> is_operator (words ! Suc i))"
proof (induction words rule: no_consecutive_operators.induct)
  case (1 prev w ws)
  show ?case
  proof (cases "is_operator w \<and> is_operator prev")
    case True
    then have "Suc 0 < length (prev # w # ws) \<and> is_operator ((prev # w # ws) ! 0)
               \<and> is_operator ((prev # w # ws) ! Suc 0)" by simp
    then have "\<exists>i. Suc i < length (prev # w # ws) \<and> is_operator ((prev # w # ws) ! i)
               \<and> is_operator ((prev # w # ws) ! Suc i)" by blast
    with True show ?thesis by simp
  next
    case False
    have "(\<exists>i. Suc i < length (prev # w # ws) \<and> is_operator ((prev # w # ws) ! i)
               \<and> is_operator ((prev # w # ws) ! Suc i))
          \<longleftrightarrow> (\<exists>i. Suc i < length (w # ws) \<and> is_operator ((w # ws) ! i)
               \<and> is_operator ((w # ws) ! Suc i))" (is "?L \<longleftrightarrow> ?R")
    proof
      assume ?L
      then obtain i where i: "Suc i < length (prev # w # ws)" "is_operator ((prev # w # ws) ! i)"
        "is_operator ((prev # w # ws) ! Suc i)" by blast
      show ?R
      proof (cases i)
        case 0
        with i False show ?thesis by simp
      next
        case (Suc j)
        with i have "Suc j < length (w # ws) \<and> is_operator ((w # ws) ! j)
               \<and> is_operator ((w # ws) ! Suc j)" by simp
        then show ?thesis by blast
      qed
    next
      assume ?R
      then obtain i where "Suc i < length (w # ws)" "is_operator ((w # ws) ! i)"
        "is_operator ((w # ws) ! Suc i)" by blast
      then have "Suc (Suc i) < length (prev # w # ws) \<and> is_operator ((prev # w # ws) ! Suc i)
               \<and> is_operator ((prev # w # ws) ! Suc (Suc i))" by simp
      then show ?L by blast
    qed
    moreover have "no_consecutive_operators (prev # w # ws) = no_consecutive_operators (w # ws)"
      using False by auto
    moreover have "no_consecutive_operators (w # ws) \<longleftrightarrow>
          \<not> (\<exists>i. Suc i < length (w # ws) \<and> is_operator ((w # ws) ! i)
               \<and> is_operator ((w # ws) ! Suc i))"
      using False by (rule 1)
    ultimately show ?thesis by (simp only:)
  qed
qed simp_all

lemma queryTokenize_all:
  "queryTokenize query (int (length query div 2 + 1)) = map (map tolower) (ws_tokens query)"
proof -
  have "int (length (ws_tokens query)) \<le> int (length query div 2 + 1)"
    using ws_tokens_bound[of query] by simp
  then show ?thesis
    using queryTokenize_loop_complete[of "[]" query "int (length query div 2 + 1)"]
    by (simp add: queryTokenize_def ws_tokens_def)
qed

text \<open>
  Claim C6. \<^verbatim>\<open>isValidQuerySyntax\<close> fails exactly on the token sequences that are empty, begin
  or end with \<open>and\<close> or \<open>or\<close>, or hold an operator right after an operator; every other
  sequence passes. A line whose tokens fail is rejected by \<^verbatim>\<open>processQuery\<close> before any
  evaluation: it returns normally, prints nothing on standard output, and the store is
  the one it was given (nothing was allocated or changed).
\<close>

theorem syntax_rejection:
  "(isValidQuerySyntax words \<longleftrightarrow>
      \<not> (words = [] \<or> is_operator (hd words) \<or> is_operator (last words)
         \<or> (\<exists>i. Suc i < length words \<and> is_operator (words ! i) \<and> is_operator (words ! Suc i))))
   \<and> (\<not> isValidQuerySyntax (map (map tolower) (ws_tokens query)) \<longrightarrow>
        processQuery query index pageDirectory h = Inr ([], h))"
proof (intro conjI impI)
  show "isValidQuerySyntax words \<longleftrightarrow>
      \<not> (words = [] \<or> is_operator (hd words) \<or> is_operator (last words)
         \<or> (\<exists>i. Suc i < length words \<and> is_operator (words ! i) \<and> is_operator (words ! Suc i)))"
    unfolding isValidQuerySyntax_def no_consecutive_operators_iff by auto
next
  assume a: "\<not> isValidQuerySyntax (map (map tolower) (ws_tokens query))"
  have "\<not> isValidQuerySyntax (queryTokenize query (int (length query div 2 + 1)))"
    unfolding queryTokenize_all by (rule a)
  then show "processQuery query index pageDirectory h = Inr ([], h)"
    by (simp add: processQuery_def Let_def)
qed

theorem syntax_rejection_witness:
  "processQuery ''and dog'' demo_index (\<lambda>d. None) demo_store = Inr ([], demo_store)
   \<and> processQuery ''dog and'' demo_index (\<lambda>d. None) demo_store = Inr ([], demo_store)
   \<and> processQuery ''dog and and cat'' demo_index (\<lambda>d. None) demo_store = Inr ([], demo_store)
   \<and> processQuery '''' demo_index (\<lambda>d. None) demo_store = Inr ([], demo_store)
   \<and> processQuery ''Dog OR or cat'' demo_index (\<lambda>d. None) demo_store = Inr ([], demo_store)
   \<and> isValidQuerySyntax [''dog'', ''and'', ''cat'', ''or'', ''emu'']"
proof -
  have 1: "\<not> isValidQuerySyntax (map (map tolower) (ws_tokens ''and dog''))" by code_simp
  have 2: "\<not> isValidQuerySyntax (map (map tolower) (ws_tokens ''dog and''))" by code_simp
  have 3: "\<not> isValidQuerySyntax (map (map tolower) (ws_tokens ''dog and and cat''))" by code_simp
  have 4: "\<not> isValidQuerySyntax (map (map tolower) (ws_tokens ''''))" by code_simp
  have 5: "\<not> isValidQuerySyntax (map (map tolower) (ws_tokens ''Dog OR or cat''))" by code_simp
  have 6: "isValidQuerySyntax [''dog'', ''and'', ''cat'', ''or'', ''emu'']"
    by (simp add: isValidQuerySyntax_def is_operator_def)
  note p = syntax_rejection[of "[]" _ demo_index "\<lambda>d. None" demo_store, THEN conjunct2, rule_format]
  show ?thesis using p[OF 1] p[OF 2] p[OF 3] p[OF 4] p[OF 5] 6 by simp
qed

subsection \<open>Ranking\<close>

lemma mset_qsort_insert: "mset (qsort_insert cmp x ys) = add_mset x (mset ys)"
  by (induction ys) simp_all

lemma mset_qsort: "mset (qsort base compar) = mset base"
  by (induction base) (simp_all add: qsort_def mset_qsort_insert)

lemma set_qsort_insert: "set (qsort_insert cmp x ys) = insert x (set ys)"
  by (induction ys) auto

lemma sorted_qsort_insert:
  "sorted_wrt (\<lambda>a b. score b \<le> score a) ys \<Longrightarrow>
   sorted_wrt (\<lambda>a b. score b \<le> score a) (qsort_insert compareScores x ys)"
  by (induction ys) (auto simp: set_qsort_insert compareScores_def)

lemma sorted_qsort: "sorted_wrt (\<lambda>a b. score b \<le> score a) (qsort base compareScores)"
  by (induction base) (simp_all add: qsort_def sorted_qsort_insert)

definition mkScore :: "int \<times> int \<Rightarrow> docScore" where
  "mkScore e = \<lparr>docID = fst e, score = snd e\<rparr>"

lemma store_fold:
  "n + length (filter (\<lambda>(d, c). 0 < c) xs) \<le> length arr \<Longrightarrow>
   foldl (\<lambda>a (k, v). fst (callbackStoreDocScores a k v h)) (arr, n) xs
   = (take n arr @ map mkScore (filter (\<lambda>(d, c). 0 < c) xs)
        @ drop (n + length (filter (\<lambda>(d, c). 0 < c) xs)) arr,
      n + length (filter (\<lambda>(d, c). 0 < c) xs))"
proof (induction xs arbitrary: arr n)
  case Nil
  then show ?case by simp
next
  case (Cons x xs)
  obtain k v where x: "x = (k, v)" by (cases x)
  show ?case
  proof (cases "0 < v")
    case True
    let ?arr = "arr[n := \<lparr>docID = k, score = v\<rparr>]"
    have n: "n < length arr" using Cons.prems x True by simp
    have pre: "Suc n + length (filter (\<lambda>(d, c). 0 < c) xs) \<le> length ?arr"
      using Cons.prems x True by simp
    have t: "take (Suc n) ?arr = take n arr @ [mkScore (k, v)]"
      using n by (simp add: take_Suc_conv_app_nth mkScore_def)
    have d: "drop (Suc n + m) ?arr = drop (Suc (n + m)) arr" for m
      by simp
    show ?thesis
      using Cons.IH[OF pre] x True t d
      by (simp add: callbackStoreDocScores_def)
  next
    case False
    then show ?thesis
      using Cons.IH[of n arr] Cons.prems x by (simp add: callbackStoreDocScores_def)
  qed
qed

lemma rankedScores_eq:
  assumes "distinct (map fst (entries result h))"
  shows "rankedScores result h
         = qsort (map mkScore (filter (\<lambda>(d, c). 0 < c) (entries result h))) compareScores"
proof -
  let ?f = "filter (\<lambda>(d, c). 0 < c) (entries result h)"
  let ?arr = "replicate (length ?f) \<lparr>docID = 0, score = 0\<rparr>"
  have c: "countNonZero result h = int (length ?f)" by (rule countNonZero_eq[OF assms])
  have p: "snd (callbackStoreDocScores arg k v h) = h" for arg k v
    by (simp add: callbackStoreDocScores_def split: prod.splits)
  have "counters_iterate result (?arr, 0) callbackStoreDocScores h
        = (foldl (\<lambda>a (k, v). fst (callbackStoreDocScores a k v h)) (?arr, 0) (entries result h), h)"
    by (rule counters_iterate_pure[of callbackStoreDocScores h result, OF p assms])
  also have "foldl (\<lambda>a (k, v). fst (callbackStoreDocScores a k v h)) (?arr, 0) (entries result h)
        = (map mkScore ?f, length ?f)"
    using store_fold[of 0 "entries result h" ?arr h] by simp
  finally show ?thesis
    by (simp add: rankedScores_def c Let_def)
qed

fun result_line :: "docScore \<Rightarrow> string \<Rightarrow> string" where
  "result_line d url = ''score '' @ printf_d (score d) @ '' doc '' @ printf_d (docID d) @ '': '' @ url"

lemma print_results_all:
  "\<forall>d\<in>set ds. pageDirectory (docID d) \<noteq> None \<Longrightarrow>
   print_results ds pageDirectory
   = Inr (map (\<lambda>d. result_line d (the (pageDirectory (docID d)))) ds)"
  by (induction ds) auto

text \<open>
  Claim C7. For a result whose entries name no document twice, the array that
  \<^verbatim>\<open>printRankedResults\<close> fills and sorts holds exactly the entries with a count greater than
  0, each once, in non-increasing order of score; entries with count 0 are left out.
  Nothing is said about the order of equal scores. With no such entry the output is
  "No documents match."; otherwise, when the page file of every ranked document can be
  read, it is the header and one line per ranked document, in that order.
\<close>

theorem ranking:
  assumes "distinct (map fst (entries result h))"
  shows "mset (rankedScores result h)
           = mset (map (\<lambda>(d, c). \<lparr>docID = d, score = c\<rparr>)
                    (filter (\<lambda>(d, c). 0 < c) (entries result h)))
         \<and> sorted_wrt (\<lambda>a b. score b \<le> score a) (rankedScores result h)
         \<and> (filter (\<lambda>(d, c). 0 < c) (entries result h) = [] \<longrightarrow>
              printRankedResults result pageDirectory h = Inr [''No documents match.''])
         \<and> (filter (\<lambda>(d, c). 0 < c) (entries result h) \<noteq> []
              \<and> (\<forall>(d, c)\<in>set (entries result h). 0 < c \<longrightarrow> pageDirectory d \<noteq> None) \<longrightarrow>
              printRankedResults result pageDirectory h
              = Inr ((''Matches '' @ printf_d (int (length (rankedScores result h))) @ '' documents (ranked):'')
                     # map (\<lambda>d. result_line d (the (pageDirectory (docID d)))) (rankedScores result h)))"
proof -
  let ?f = "filter (\<lambda>(d, c). 0 < c) (entries result h)"
  have mk: "mkScore = (\<lambda>(d, c). \<lparr>docID = d, score = c\<rparr>)"
    by (rule ext) (simp add: mkScore_def split: prod.splits)
  have rs: "rankedScores result h = qsort (map mkScore ?f) compareScores"
    by (rule rankedScores_eq[OF assms])
  have m: "mset (rankedScores result h) = mset (map mkScore ?f)"
    unfolding rs by (rule mset_qsort)
  have s: "sorted_wrt (\<lambda>a b. score b \<le> score a) (rankedScores result h)"
    unfolding rs by (rule sorted_qsort)
  have c: "countNonZero result h = int (length ?f)" by (rule countNonZero_eq[OF assms])
  have len: "length (rankedScores result h) = length ?f"
    using m by (metis length_map size_mset)
  have e: "printRankedResults result pageDirectory h = Inr [''No documents match.'']" if "?f = []"
    using that c by (simp add: printRankedResults_def)
  have ne: "printRankedResults result pageDirectory h
              = Inr ((''Matches '' @ printf_d (int (length (rankedScores result h))) @ '' documents (ranked):'')
                     # map (\<lambda>d. result_line d (the (pageDirectory (docID d)))) (rankedScores result h))"
    if "?f \<noteq> []" and pd: "\<forall>(d, c)\<in>set (entries result h). 0 < c \<longrightarrow> pageDirectory d \<noteq> None"
  proof -
    have "set (rankedScores result h) = mkScore ` set ?f"
      using m by (metis mset_eq_setD set_map)
    then have "\<forall>d\<in>set (rankedScores result h). pageDirectory (docID d) \<noteq> None"
      using pd by (auto simp: mkScore_def)
    from print_results_all[OF this] that(1) c len show ?thesis
      by (simp add: printRankedResults_def)
  qed
  show ?thesis using m s e ne unfolding mk by blast
qed

text \<open>Scores \<open>{3: 10, 7: 5, 4: 0, 2: 10}\<close>, and a result with a zero count only.\<close>

definition scores_store :: store where
  "scores_store = \<lparr>cells = (\<lambda>a. None)(0 \<mapsto> [(3, 10), (7, 5), (4, 0), (2, 10)], 2 \<mapsto> [(4, 0)]), nxt = 3\<rparr>"

theorem ranking_witness:
  "mset (rankedScores (Some 0) scores_store)
     = {#\<lparr>docID = 3, score = 10\<rparr>, \<lparr>docID = 7, score = 5\<rparr>, \<lparr>docID = 2, score = 10\<rparr>#}
   \<and> sorted_wrt (\<lambda>a b. score b \<le> score a) (rankedScores (Some 0) scores_store)
   \<and> printRankedResults (Some 0) (\<lambda>d. Some ''u'') scores_store
      = Inr (''Matches 3 documents (ranked):''
             # map (\<lambda>d. result_line d ''u'') (rankedScores (Some 0) scores_store))
   \<and> printRankedResults (Some 2) (\<lambda>d. None) scores_store = Inr [''No documents match.'']"
proof -
  have e: "entries (Some 0) scores_store = [(3, 10), (7, 5), (4, 0), (2, 10)]"
    by (simp add: entries_def scores_store_def)
  have e0: "entries (Some 2) scores_store = [(4, 0)]"
    by (simp add: entries_def scores_store_def)
  have d: "distinct (map fst (entries (Some 0) scores_store))" by (simp add: e)
  have d0: "distinct (map fst (entries (Some 2) scores_store))" by (simp add: e0)
  note r = ranking[OF d, of "\<lambda>d. Some ''u''", unfolded e]
  note r0 = ranking[OF d0, of "\<lambda>d. None", unfolded e0]
  have m: "mset (rankedScores (Some 0) scores_store)
     = {#\<lparr>docID = 3, score = 10\<rparr>, \<lparr>docID = 7, score = 5\<rparr>, \<lparr>docID = 2, score = 10\<rparr>#}"
    using r[THEN conjunct1] by simp
  have s: "sorted_wrt (\<lambda>a b. score b \<le> score a) (rankedScores (Some 0) scores_store)"
    using r[THEN conjunct2, THEN conjunct1] .
  have "size (mset (rankedScores (Some 0) scores_store)) = 3"
    unfolding m by simp
  then have l: "length (rankedScores (Some 0) scores_store) = 3" by simp
  have p3: "printf_d 3 = ''3''" by code_simp
  have p: "printRankedResults (Some 0) (\<lambda>d. Some ''u'') scores_store
      = Inr (''Matches 3 documents (ranked):''
             # map (\<lambda>d. result_line d ''u'') (rankedScores (Some 0) scores_store))"
    using r[THEN conjunct2, THEN conjunct2, THEN conjunct2] l p3 by simp
  have n: "printRankedResults (Some 2) (\<lambda>d. None) scores_store = Inr [''No documents match.'']"
    using r0[THEN conjunct2, THEN conjunct2, THEN conjunct1] by simp
  show ?thesis using m s p n by (intro conjI)
qed

subsection \<open>The index file: decimal numbers\<close>

lemma of_char_digit_char: "d < 10 \<Longrightarrow> (of_char (digit_char d) :: nat) = 48 + d"
  by (simp add: digit_char_def)

lemma isdigit_digit_char: "d < 10 \<Longrightarrow> isdigit (digit_char d)"
  by (simp add: isdigit_def of_char_digit_char)

lemma digit_val_digit_char: "d < 10 \<Longrightarrow> digit_val (digit_char d) = d"
  by (simp add: digit_val_def of_char_digit_char)

lemma digits_of_digits: "\<forall>c\<in>set (digits_of n). isdigit c"
proof (induction n rule: digits_of.induct)
  case (1 n)
  show ?case
  proof (cases "n < 10")
    case True
    then show ?thesis by (subst digits_of.simps) (simp add: isdigit_digit_char)
  next
    case False
    have "\<forall>c\<in>set (digits_of (n div 10)). isdigit c" using 1 False by simp
    moreover have "isdigit (digit_char (n mod 10))" by (simp add: isdigit_digit_char)
    ultimately show ?thesis using False by (subst digits_of.simps) simp
  qed
qed

lemma digits_of_nonempty: "digits_of n \<noteq> []"
  by (subst digits_of.simps) simp

lemma number_of_append:
  "number_of (ds @ [c]) = 10 * number_of ds + digit_val c"
  by (simp add: number_of_def)

lemma number_of_digits_of: "number_of (digits_of n) = n"
proof (induction n rule: digits_of.induct)
  case (1 n)
  show ?case
  proof (cases "n < 10")
    case True
    then show ?thesis
      by (subst digits_of.simps) (simp add: number_of_def digit_val_digit_char)
  next
    case False
    have "number_of (digits_of (n div 10)) = n div 10" using 1 False by simp
    then have "number_of (digits_of (n div 10) @ [digit_char (n mod 10)]) = n"
      by (simp add: number_of_append digit_val_digit_char)
    then show ?thesis using False by (subst digits_of.simps) simp
  qed
qed

lemma not_space_digit: "isdigit c \<Longrightarrow> \<not> isspace c"
  by (auto simp: isdigit_def isspace_def Let_def)

lemma digit_not_sign: "isdigit c \<Longrightarrow> c \<noteq> CHR ''-'' \<and> c \<noteq> CHR ''+''"
  by (auto simp: isdigit_def)

lemma takeWhile_prefix:
  "\<forall>c\<in>set ds. P c \<Longrightarrow> rest = [] \<or> \<not> P (hd rest) \<Longrightarrow> takeWhile P (ds @ rest) = ds"
  by (cases rest) (simp_all add: takeWhile_append2)

lemma dropWhile_prefix:
  "\<forall>c\<in>set ds. P c \<Longrightarrow> rest = [] \<or> \<not> P (hd rest) \<Longrightarrow> dropWhile P (ds @ rest) = rest"
  by (cases rest) (simp_all add: dropWhile_append2)

lemma strtol_int: "int n \<le> INT_MAX \<Longrightarrow> int_wrap (strtol False (digits_of n)) = int n"
  by (simp add: strtol_def number_of_digits_of int_wrap_nonneg INT_MAX_def LONG_MAX_def LONG_MIN_def)

lemma scan_d_number:
  assumes "\<forall>c\<in>set sp. isspace c" "rest = [] \<or> \<not> isdigit (hd rest)" "int n \<le> INT_MAX"
  shows "scan_d (sp @ digits_of n @ rest) = (Some (int n), rest)"
proof -
  let ?ds = "digits_of n"
  have dig: "\<forall>c\<in>set ?ds. isdigit c" by (rule digits_of_digits)
  have ne: "?ds \<noteq> []" by (rule digits_of_nonempty)
  have h: "isdigit (hd ?ds)" using dig ne by (cases ?ds) auto
  have nsp: "?ds @ rest = [] \<or> \<not> isspace (hd (?ds @ rest))"
    using ne h not_space_digit by simp
  have 1: "dropWhile isspace (sp @ ?ds @ rest) = ?ds @ rest"
    using dropWhile_prefix[OF assms(1) nsp] by simp
  have 2: "hd (?ds @ rest) \<noteq> CHR ''-''" "hd (?ds @ rest) \<noteq> CHR ''+''"
    using ne h digit_not_sign by simp_all
  have 3: "takeWhile isdigit (?ds @ rest) = ?ds" by (rule takeWhile_prefix[OF dig assms(2)])
  have 4: "dropWhile isdigit (?ds @ rest) = rest" by (rule dropWhile_prefix[OF dig assms(2)])
  show ?thesis
    unfolding scan_d_def 1 Let_def using 2 3 4 ne by (simp add: strtol_int[OF assms(3)])
qed

lemma printf_d_nonneg: "0 \<le> i \<Longrightarrow> printf_d i = digits_of (nat i)"
  by (simp add: printf_d_def)

lemma isspace_space: "isspace CHR '' ''" "isspace (CHR 0x0A)"
  by (simp_all add: isspace_def)

lemma not_digit_space: "\<not> isdigit (CHR '' '')" "\<not> isdigit (CHR 0x0A)"
  by (simp_all add: isdigit_def)

definition pair_text :: "int \<times> int \<Rightarrow> string" where
  "pair_text e = '' '' @ printf_d (fst e) @ '' '' @ printf_d (snd e)"

text \<open>A document number or a count that \<^verbatim>\<open>index_set\<close> accepts: an \<^verbatim>\<open>int\<close> that is not negative.\<close>

definition nonneg_int :: "int \<Rightarrow> bool" where
  "nonneg_int x = (0 \<le> x \<and> x \<le> INT_MAX)"

lemma fscanf_d_d_pair:
  assumes "nonneg_int d" "nonneg_int n" "rest = [] \<or> \<not> isdigit (hd rest)"
  shows "fscanf_d_d (pair_text (d, n) @ rest) = (Some (d, n), rest)"
proof -
  have dn: "0 \<le> d" "0 \<le> n" "d \<le> INT_MAX" "n \<le> INT_MAX"
    using assms(1,2) by (simp_all add: nonneg_int_def)
  have a: "scan_d ('' '' @ digits_of (nat d) @ ('' '' @ digits_of (nat n) @ rest))
           = (Some (int (nat d)), '' '' @ digits_of (nat n) @ rest)"
    by (rule scan_d_number) (simp_all add: isspace_space not_digit_space dn)
  have b: "scan_d ([] @ digits_of (nat n) @ rest) = (Some (int (nat n)), rest)"
    by (rule scan_d_number) (simp_all add: assms(3) dn)
  have c: "dropWhile isspace ('' '' @ digits_of (nat n) @ rest) = digits_of (nat n) @ rest"
  proof -
    have "isdigit (hd (digits_of (nat n)))"
      using digits_of_digits[of "nat n"] digits_of_nonempty[of "nat n"]
      by (cases "digits_of (nat n)") auto
    then have "\<not> isspace (hd (digits_of (nat n) @ rest))"
      using digits_of_nonempty[of "nat n"] not_space_digit by simp
    moreover have "digits_of (nat n) @ rest \<noteq> []"
      using digits_of_nonempty[of "nat n"] by simp
    ultimately have "dropWhile isspace (digits_of (nat n) @ rest) = digits_of (nat n) @ rest"
      by (cases "digits_of (nat n) @ rest") simp_all
    then show ?thesis by (simp add: isspace_space)
  qed
  show ?thesis
    using a b c dn
    by (simp add: fscanf_d_d_def pair_text_def printf_d_nonneg)
qed

subsection \<open>The index file: reading back a saved line\<close>

text \<open>
  A normalized word, as the specification's data model has it: non-empty, lowercase
  letters only (\<^verbatim>\<open>normalizeWord\<close> applied to a word of letters).
\<close>

definition islower :: "char \<Rightarrow> bool" where
  "islower c = (let n = (of_char c :: nat) in 97 \<le> n \<and> n \<le> 122)"

definition normalized_word :: "string \<Rightarrow> bool" where
  "normalized_word w = (w \<noteq> [] \<and> (\<forall>c\<in>set w. islower c))"

lemma islower_props: "islower c \<Longrightarrow> \<not> isspace c \<and> \<not> isdigit c \<and> c \<noteq> CHR ''-'' \<and> c \<noteq> CHR ''+''"
  by (auto simp: islower_def isspace_def isdigit_def Let_def)

text \<open>The text \<^verbatim>\<open>index_save\<close> writes for the entries of a word, and for a whole line.\<close>

definition pairs_text :: "counters \<Rightarrow> string" where
  "pairs_text es = concat (map pair_text es)"

definition line_text :: "string \<Rightarrow> counters \<Rightarrow> string" where
  "line_text w es = w @ pairs_text es @ [CHR 0x0A]"

text \<open>What follows a line of the file: nothing, or the next word.\<close>

definition word_start :: "string \<Rightarrow> bool" where
  "word_start rest = (rest = [] \<or> islower (hd rest))"



lemma fscanf_d_d_end:
  assumes "word_start rest"
  shows "fscanf_d_d (CHR 0x0A # rest) = (None, rest)"
proof -
  have 1: "dropWhile isspace (CHR 0x0A # rest) = rest"
    using assms islower_props[of "hd rest"]
    by (cases rest) (auto simp: word_start_def isspace_space)
  have 2: "takeWhile isdigit rest = []"
    using assms islower_props[of "hd rest"] by (cases rest) (auto simp: word_start_def)
  have "scan_d (CHR 0x0A # rest) = (None, rest)"
    unfolding scan_d_def 1 Let_def
    using assms islower_props[of "hd rest"] 2
    by (auto simp: word_start_def)
  then show ?thesis by (simp add: fscanf_d_d_def)
qed

text \<open>Installing the entries of one word with \<^verbatim>\<open>index_set\<close>, in their order.\<close>

definition set_all :: "string \<Rightarrow> counters \<Rightarrow> index \<times> store \<Rightarrow> index \<times> store" where
  "set_all w es st = foldl (\<lambda>(i, h) (d, n). index_set i w d n h) st es"

lemma pairs_text_hd:
  "tail \<noteq> [] \<Longrightarrow> isspace (hd tail) \<Longrightarrow>
   pairs_text es @ tail \<noteq> [] \<and> isspace (hd (pairs_text es @ tail))"
  by (cases es) (simp_all add: pairs_text_def pair_text_def isspace_space)

text \<open>
  The pairs of a word are installed up to a \<open>tail\<close> on which \<^verbatim>\<open>fscanf\<close> does not find a pair;
  \<open>tail'\<close> is what that call leaves of it.
\<close>

lemma load_pairs_text:
  assumes "\<forall>(d, n)\<in>set es. nonneg_int d \<and> nonneg_int n"
    and "fscanf_d_d tail = (None, tail')" "tail \<noteq> []" "isspace (hd tail)"
  shows "load_pairs index w (pairs_text es @ tail) h = (set_all w es (index, h), tail')"
  using assms(1)
proof (induction es arbitrary: index h)
  case Nil
  show ?case
    using assms(2) by (subst load_pairs.simps) (simp add: pairs_text_def set_all_def)
next
  case (Cons e es)
  obtain d n where e: "e = (d, n)" by (cases e)
  have dn: "nonneg_int d" "nonneg_int n" using Cons.prems e by simp_all
  let ?rest = "pairs_text es @ tail"
  have "?rest = [] \<or> \<not> isdigit (hd ?rest)"
    using pairs_text_hd[OF assms(3,4), of es] not_space_digit by blast
  from fscanf_d_d_pair[OF dn this]
  have f: "fscanf_d_d (pairs_text (e # es) @ tail) = (Some (d, n), ?rest)"
    by (simp add: pairs_text_def e)
  obtain i' h' where s: "index_set index w d n h = (i', h')" by (cases "index_set index w d n h")
  have "load_pairs i' w ?rest h' = (set_all w es (i', h'), tail')"
    using Cons.prems by (intro Cons.IH) simp
  then show ?case
    using f s e by (subst load_pairs.simps) (simp add: set_all_def)
qed

text \<open>\<^verbatim>\<open>%s\<close> takes any run of characters that are not whitespace as the word.\<close>

lemma scan_s_run:
  assumes ne: "w \<noteq> []" and ns: "\<forall>x\<in>set w. \<not> isspace x" and "isspace c"
  shows "scan_s (w @ c # rest) = Some (w, c # rest)"
proof -
  have h: "\<not> isspace (hd (w @ c # rest))" using ne ns by (cases w) auto
  have 1: "dropWhile isspace (w @ c # rest) = w @ c # rest"
    using h ne by (cases w) auto
  have 2: "takeWhile (\<lambda>x. \<not> isspace x) (w @ c # rest) = w"
    using ns assms(3) by (simp add: takeWhile_append2)
  have 3: "dropWhile (\<lambda>x. \<not> isspace x) (w @ c # rest) = c # rest"
    using ns assms(3) by (simp add: dropWhile_append2)
  show ?thesis unfolding scan_s_def 1 Let_def using 2 3 ne by simp
qed

lemma scan_s_word:
  assumes "normalized_word w" "isspace c"
  shows "scan_s (w @ c # rest) = Some (w, c # rest)"
proof -
  have ns: "\<forall>x\<in>set w. \<not> isspace x" using assms(1) islower_props by (auto simp: normalized_word_def)
  have ne: "w \<noteq> []" using assms(1) by (simp add: normalized_word_def)
  show ?thesis by (rule scan_s_run[OF ne ns assms(2)])
qed

text \<open>
  One word with its pairs: the word is whatever run of non-whitespace characters stands
  there, and its pairs end where \<^verbatim>\<open>fscanf\<close> does not find a pair.
\<close>

lemma load_words_entry:
  assumes "w \<noteq> []" "\<forall>x\<in>set w. \<not> isspace x" "length w < 256"
    and "\<forall>(d, n)\<in>set es. nonneg_int d \<and> nonneg_int n"
    and "fscanf_d_d tail = (None, tail')" "tail \<noteq> []" "isspace (hd tail)"
  shows "load_words index (w @ pairs_text es @ tail) h
         = (case set_all w es (index, h) of (i', h') \<Rightarrow> load_words i' tail' h')"
proof -
  obtain c s where cs: "pairs_text es @ tail = c # s" "isspace c"
    using pairs_text_hd[OF assms(6,7), of es] by (cases "pairs_text es @ tail") auto
  have sc: "scan_s (w @ pairs_text es @ tail) = Some (w, pairs_text es @ tail)"
    using scan_s_run[OF assms(1,2) cs(2), of s] cs(1) by simp
  show ?thesis
    using sc assms(3) load_pairs_text[OF assms(4-7), of index w h]
    by (subst load_words.simps) (simp split: prod.splits)
qed

lemma load_words_line:
  assumes "normalized_word w" "length w < 256" "\<forall>(d, n)\<in>set es. nonneg_int d \<and> nonneg_int n"
    "word_start rest"
  shows "load_words index (line_text w es @ rest) h
         = (case set_all w es (index, h) of (i', h') \<Rightarrow> load_words i' rest h')"
proof -
  have ns: "\<forall>x\<in>set w. \<not> isspace x" using assms(1) islower_props by (auto simp: normalized_word_def)
  have ne: "w \<noteq> []" using assms(1) by (simp add: normalized_word_def)
  have "load_words index (w @ pairs_text es @ CHR 0x0A # rest) h
         = (case set_all w es (index, h) of (i', h') \<Rightarrow> load_words i' rest h')"
    by (rule load_words_entry[OF ne ns assms(2,3) fscanf_d_d_end[OF assms(4)]])
       (simp_all add: isspace_space)
  then show ?thesis by (simp add: line_text_def)
qed

definition lines_text :: "(string \<times> counters) list \<Rightarrow> string" where
  "lines_text L = concat (map (\<lambda>(w, es). line_text w es) L)"

definition set_lines :: "(string \<times> counters) list \<Rightarrow> index \<times> store \<Rightarrow> index \<times> store" where
  "set_lines L st = foldl (\<lambda>st (w, es). set_all w es st) st L"

text \<open>
  A line as \<^verbatim>\<open>index_save\<close> writes it for a word that fits the buffer of \<^verbatim>\<open>index_load\<close>: a
  normalized word of fewer than 256 characters, then pairs of \<^verbatim>\<open>int\<close>s that are not
  negative.
\<close>

definition line_ok :: "string \<times> counters \<Rightarrow> bool" where
  "line_ok l =
     (normalized_word (fst l) \<and> length (fst l) < 256
      \<and> (\<forall>(d, n)\<in>set (snd l). nonneg_int d \<and> nonneg_int n))"

lemma word_start_lines: "\<forall>l\<in>set L. line_ok l \<Longrightarrow> word_start (lines_text L)"
proof (cases L)
  case Nil
  then show ?thesis by (simp add: word_start_def lines_text_def)
next
  case (Cons l L')
  assume "\<forall>l\<in>set L. line_ok l"
  then have "normalized_word (fst l)" using Cons by (simp add: line_ok_def)
  then have "fst l \<noteq> []" "islower (hd (fst l))"
    by (auto simp: normalized_word_def)
  then show ?thesis
    using Cons by (cases l) (simp add: word_start_def lines_text_def line_text_def)
qed

lemma word_start_lines_then:
  assumes "\<forall>l\<in>set L. line_ok l" "word_start rest"
  shows "word_start (lines_text L @ rest)"
proof (cases L)
  case Nil
  then show ?thesis using assms(2) by (simp add: lines_text_def)
next
  case (Cons l L')
  have "L \<noteq> []" using Cons by simp
  have "lines_text L \<noteq> []" using Cons by (cases l) (simp add: lines_text_def line_text_def)
  then have "hd (lines_text L @ rest) = hd (lines_text L)" by simp
  then show ?thesis
    using word_start_lines[OF assms(1)] \<open>lines_text L \<noteq> []\<close> by (simp add: word_start_def)
qed

lemma load_words_lines_then:
  assumes "\<forall>l\<in>set L. line_ok l" "word_start rest"
  shows "load_words index (lines_text L @ rest) h
         = (case set_lines L (index, h) of (i', h') \<Rightarrow> load_words i' rest h')"
  using assms(1)
proof (induction L arbitrary: index h)
  case Nil
  show ?case by (simp add: lines_text_def set_lines_def)
next
  case (Cons l L)
  obtain w es where l: "l = (w, es)" by (cases l)
  have ok: "normalized_word w" "length w < 256" "\<forall>(d, n)\<in>set es. nonneg_int d \<and> nonneg_int n"
    using Cons.prems l by (simp_all add: line_ok_def)
  have ws: "word_start (lines_text L @ rest)"
    using Cons.prems assms(2) by (intro word_start_lines_then) simp_all
  have t: "lines_text (l # L) @ rest = line_text w es @ (lines_text L @ rest)"
    by (simp add: lines_text_def l)
  obtain i' h' where s: "set_all w es (index, h) = (i', h')" by (cases "set_all w es (index, h)")
  have "load_words i' (lines_text L @ rest) h'
        = (case set_lines L (i', h') of (i2, h2) \<Rightarrow> load_words i2 rest h2)"
    using Cons.prems by (intro Cons.IH) simp
  then show ?case
    unfolding t load_words_line[OF ok ws] using s l by (simp add: set_lines_def)
qed

lemma load_words_end: "load_words index [] h = Inr (index, h)"
  by (subst load_words.simps) (simp add: scan_s_def)

lemma load_words_lines:
  assumes "\<forall>l\<in>set L. line_ok l"
  shows "load_words index (lines_text L) h = Inr (set_lines L (index, h))"
proof -
  have "word_start []" by (simp add: word_start_def)
  from load_words_lines_then[OF assms this, of index h] show ?thesis
    by (cases "set_lines L (index, h)") (simp add: load_words_end)
qed





lemma save_index_counts_text:
  assumes "distinct (map fst (entries (Some p) h))"
  shows "counters_iterate (Some p) fp save_index_counts h = (fp @ pairs_text (entries (Some p) h), h)"
proof -
  have pure: "snd (save_index_counts arg k v h) = h" for arg k v
    by (simp add: save_index_counts_def)
  have "foldl (\<lambda>a (k, v). fst (save_index_counts a k v h)) fp es = fp @ pairs_text es" for es
    by (induction es arbitrary: fp)
       (auto simp: save_index_counts_def pairs_text_def pair_text_def)
  then show ?thesis
    using counters_iterate_pure[of save_index_counts h "Some p" fp, OF pure assms] by simp
qed

definition contents :: "index \<Rightarrow> store \<Rightarrow> (string \<times> counters) list" where
  "contents index h = map (\<lambda>(w, p). (w, entries (Some p) h)) index"

lemma index_save_text:
  assumes "\<forall>(w, p)\<in>set index. distinct (map fst (entries (Some p) h))"
  shows "index_save index fp h = (fp @ lines_text (contents index h), h)"
  unfolding index_save_def using assms
proof (induction index arbitrary: fp)
  case Nil
  show ?case by (simp add: lines_text_def contents_def)
next
  case (Cons x index)
  obtain w p where x: "x = (w, p)" by (cases x)
  have d: "distinct (map fst (entries (Some p) h))" using Cons.prems x by simp
  have 1: "save_index_word fp w p h = (fp @ line_text w (entries (Some p) h), h)"
    by (simp add: save_index_word_def save_index_counts_text[OF d] line_text_def)
  have "hashtable_iterate index (fp @ line_text w (entries (Some p) h)) save_index_word h
        = ((fp @ line_text w (entries (Some p) h)) @ lines_text (contents index h), h)"
    using Cons.prems by (intro Cons.IH) simp
  then show ?case using x 1 by (simp add: lines_text_def contents_def)
qed

subsection \<open>The index file: what loading installs\<close>

text \<open>
  \<open>count_of\<close> is \<^verbatim>\<open>counters_get(index_find(index, w), d)\<close>. In a state that is \<open>state_ok\<close> no two
  words share a counters object and every object of the index is live.
\<close>

definition count_of :: "index \<times> store \<Rightarrow> string \<Rightarrow> int \<Rightarrow> int" where
  "count_of st w d = counters_get (index_find (fst st) w) d (snd st)"

definition state_ok :: "index \<times> store \<Rightarrow> bool" where
  "state_ok st =
     (distinct (map snd (fst st))
      \<and> (\<forall>(w, p)\<in>set (fst st). p < nxt (snd st) \<and> cells (snd st) p \<noteq> None))"

lemma map_of_snoc:
  "map_of (xs @ [(k, v)]) k' = (case map_of xs k' of Some x \<Rightarrow> Some x | None \<Rightarrow> if k' = k then Some v else None)"
  by (induction xs) (auto split: option.splits)

lemma index_set_new:
  assumes "hashtable_find i w = None" "0 \<le> d" "0 \<le> n"
  shows "index_set i w d n h
         = (i @ [(w, nxt h)], h\<lparr>cells := (cells h)(nxt h \<mapsto> [(d, n)]), nxt := Suc (nxt h)\<rparr>)"
  using assms
  by (simp add: index_set_def counters_new_def hashtable_insert_def hashtable_find_def
      counters_set_def dc_set_def)

lemma index_set_old:
  assumes "hashtable_find i w = Some p" "cells h p = Some c" "0 \<le> d" "0 \<le> n"
  shows "index_set i w d n h = (i, h\<lparr>cells := (cells h)(p \<mapsto> dc_set c d n)\<rparr>)"
  using assms by (simp add: index_set_def counters_set_def)

lemma state_ok_find:
  "state_ok (i, h) \<Longrightarrow> hashtable_find i w = Some p \<Longrightarrow> p < nxt h \<and> (\<exists>c. cells h p = Some c)"
  by (auto simp: state_ok_def hashtable_find_def dest!: map_of_SomeD)

lemma state_ok_other:
  "state_ok (i, h) \<Longrightarrow> hashtable_find i w = Some p \<Longrightarrow> hashtable_find i w' = Some p' \<Longrightarrow>
   w \<noteq> w' \<Longrightarrow> p \<noteq> p'"
proof -
  assume ok: "state_ok (i, h)" and a: "hashtable_find i w = Some p" and b: "hashtable_find i w' = Some p'"
    and ne: "w \<noteq> w'"
  have 1: "(w, p) \<in> set i" "(w', p') \<in> set i"
    using a b by (auto simp: hashtable_find_def dest: map_of_SomeD)
  have inj: "inj_on snd (set i)" using ok by (simp add: state_ok_def distinct_map)
  show ?thesis
  proof
    assume "p = p'"
    then have "(w, p) = (w', p')" using inj_onD[OF inj, of "(w, p)" "(w', p')"] 1 by simp
    then show False using ne by simp
  qed
qed

lemma hashtable_find_snoc:
  "hashtable_find (i @ [(w, a)]) w'
   = (case hashtable_find i w' of Some p \<Rightarrow> Some p | None \<Rightarrow> if w' = w then Some a else None)"
  unfolding hashtable_find_def by (rule map_of_snoc)

lemma index_set_effect:
  assumes "state_ok (i, h)" "0 \<le> d" "0 \<le> n"
  shows "state_ok (index_set i w d n h)
         \<and> (\<forall>w' d'. count_of (index_set i w d n h) w' d'
                = (if w' = w \<and> d' = d then n else count_of (i, h) w' d'))"
proof (cases "hashtable_find i w")
  case None
  let ?h = "h\<lparr>cells := (cells h)(nxt h \<mapsto> [(d, n)]), nxt := Suc (nxt h)\<rparr>"
  have s: "index_set i w d n h = (i @ [(w, nxt h)], ?h)"
    by (rule index_set_new[OF None assms(2,3)])
  have fresh: "nxt h \<notin> snd ` set i" using assms(1) by (auto simp: state_ok_def)
  have ok: "state_ok (i @ [(w, nxt h)], ?h)"
    using assms(1) fresh by (auto simp: state_ok_def)
  have c: "count_of (i @ [(w, nxt h)], ?h) w' d' = (if w' = w \<and> d' = d then n else count_of (i, h) w' d')"
    for w' d'
  proof (cases "hashtable_find i w'")
    case N: None
    have f: "index_find (i @ [(w, nxt h)]) w' = (if w' = w then Some (nxt h) else None)"
      unfolding index_find_def hashtable_find_snoc N by simp
    have g: "index_find i w' = None" using N by (simp add: index_find_def)
    show ?thesis
      unfolding count_of_def fst_conv snd_conv f g
      by (simp add: counters_get_def entries_def dc_get_def)
  next
    case (Some p')
    then have lt: "p' < nxt h" using state_ok_find[OF assms(1)] by blast
    have ne: "w' \<noteq> w" using Some None by auto
    have f: "index_find (i @ [(w, nxt h)]) w' = Some p'"
      unfolding index_find_def hashtable_find_snoc Some by simp
    have g: "index_find i w' = Some p'" using Some by (simp add: index_find_def)
    show ?thesis
      unfolding count_of_def fst_conv snd_conv f g
      using lt ne by (simp add: counters_get_def entries_def)
  qed
  show ?thesis unfolding s using ok c by blast
next
  case (Some p)
  from state_ok_find[OF assms(1) Some] obtain c where c: "cells h p = Some c" and p: "p < nxt h" by blast
  let ?h = "h\<lparr>cells := (cells h)(p \<mapsto> dc_set c d n)\<rparr>"
  have s: "index_set i w d n h = (i, ?h)"
    by (rule index_set_old[OF Some c assms(2,3)])
  have ok: "state_ok (i, ?h)" using assms(1) by (auto simp: state_ok_def)
  have cc: "count_of (i, ?h) w' d' = (if w' = w \<and> d' = d then n else count_of (i, h) w' d')"
    for w' d'
  proof (cases "w' = w")
    case True
    then show ?thesis
      using Some c assms(3)
      by (simp add: count_of_def index_find_def counters_get_def entries_def dc_get_dc_set)
  next
    case False
    show ?thesis
    proof (cases "hashtable_find i w'")
      case None
      then show ?thesis using False
        by (simp add: count_of_def index_find_def counters_get_def entries_def)
    next
      case S: (Some p')
      have "p \<noteq> p'" using state_ok_other[OF assms(1) Some S] False by simp
      then show ?thesis using S False
        by (simp add: count_of_def index_find_def counters_get_def entries_def)
    qed
  qed
  show ?thesis unfolding s using ok cc by blast
qed

definition set_kvs :: "((string \<times> int) \<times> int) list \<Rightarrow> index \<times> store \<Rightarrow> index \<times> store" where
  "set_kvs kvs st = foldl (\<lambda>(i, h) ((w, d), n). index_set i w d n h) st kvs"

lemma set_kvs_effect:
  assumes "state_ok st" "\<forall>((w, d), n)\<in>set kvs. 0 \<le> d \<and> 0 \<le> n" "distinct (map fst kvs)"
  shows "state_ok (set_kvs kvs st)
         \<and> (\<forall>w d. count_of (set_kvs kvs st) w d
               = (case map_of kvs (w, d) of None \<Rightarrow> count_of st w d | Some n \<Rightarrow> n))"
  using assms
proof (induction kvs arbitrary: st)
  case Nil
  then show ?case by (simp add: set_kvs_def)
next
  case (Cons kv kvs)
  obtain w d n where kv: "kv = ((w, d), n)" by (cases kv) auto
  obtain i h where st: "st = (i, h)" by (cases st)
  have dn: "0 \<le> d" "0 \<le> n" using Cons.prems(2) kv by simp_all
  let ?st1 = "index_set i w d n h"
  have e: "state_ok ?st1"
    "\<And>w' d'. count_of ?st1 w' d' = (if w' = w \<and> d' = d then n else count_of (i, h) w' d')"
    using index_set_effect[OF _ dn, of i h w] Cons.prems(1) st by simp_all
  have ih: "state_ok (set_kvs kvs ?st1)"
    "\<And>w' d'. count_of (set_kvs kvs ?st1) w' d'
        = (case map_of kvs (w', d') of None \<Rightarrow> count_of ?st1 w' d' | Some n \<Rightarrow> n)"
    using Cons.IH[OF e(1)] Cons.prems(2,3) by simp_all
  have u: "set_kvs (kv # kvs) st = set_kvs kvs ?st1"
    by (simp add: set_kvs_def kv st)
  have no: "map_of kvs (w, d) = None"
    using Cons.prems(3) kv by (simp add: map_of_eq_None_iff)
  show ?case
    unfolding u using ih e(2) no kv st by (auto split: option.splits)
qed

definition kvs_of :: "(string \<times> counters) list \<Rightarrow> ((string \<times> int) \<times> int) list" where
  "kvs_of L = concat (map (\<lambda>(w, es). map (\<lambda>(d, n). ((w, d), n)) es) L)"

lemma set_all_kvs: "set_all w es st = set_kvs (map (\<lambda>(d, n). ((w, d), n)) es) st"
  unfolding set_all_def set_kvs_def
  by (induction es arbitrary: st) (auto split: prod.splits)

lemma set_kvs_append: "set_kvs (xs @ ys) st = set_kvs ys (set_kvs xs st)"
  by (simp add: set_kvs_def)

lemma set_lines_kvs: "set_lines L st = set_kvs (kvs_of L) st"
proof (induction L arbitrary: st)
  case Nil
  show ?case by (simp add: set_lines_def set_kvs_def kvs_of_def)
next
  case (Cons l L)
  obtain w es where l: "l = (w, es)" by (cases l)
  have "set_lines (l # L) st = set_lines L (set_all w es st)"
    by (simp add: set_lines_def l)
  also have "\<dots> = set_kvs (kvs_of L) (set_kvs (map (\<lambda>(d, n). ((w, d), n)) es) st)"
    by (simp add: Cons.IH set_all_kvs)
  also have "\<dots> = set_kvs (kvs_of (l # L)) st"
    by (simp add: kvs_of_def l set_kvs_append)
  finally show ?case .
qed

lemma map_of_kvs_of:
  assumes "distinct (map fst L)"
  shows "map_of (kvs_of L) (w, d) = (case map_of L w of None \<Rightarrow> None | Some es \<Rightarrow> map_of es d)"
  using assms
proof (induction L)
  case Nil
  show ?case by (simp add: kvs_of_def)
next
  case (Cons l L)
  obtain w' es where l: "l = (w', es)" by (cases l)
  have blk: "map_of (map (\<lambda>(d, n). ((w', d), n)) es) (w, d) = (if w = w' then map_of es d else None)"
    by (induction es) auto
  have ih: "map_of (kvs_of L) (w, d) = (case map_of L w of None \<Rightarrow> None | Some es \<Rightarrow> map_of es d)"
    using Cons by simp
  have nw: "map_of L w' = None"
    using Cons.prems l by (simp add: map_of_eq_None_iff)
  have "map_of (kvs_of (l # L)) (w, d)
        = (case map_of (map (\<lambda>(d, n). ((w', d), n)) es) (w, d) of
             None \<Rightarrow> map_of (kvs_of L) (w, d) | Some x \<Rightarrow> Some x)"
    by (simp add: kvs_of_def l map_add_def split: option.splits)
  then show ?case
    unfolding blk ih using nw l by (auto split: option.splits)
qed

lemma distinct_kvs_of:
  assumes "distinct (map fst L)" "\<forall>(w, es)\<in>set L. distinct (map fst es)"
  shows "distinct (map fst (kvs_of L))"
  using assms
proof (induction L)
  case Nil
  show ?case by (simp add: kvs_of_def)
next
  case (Cons l L)
  obtain w es where l: "l = (w, es)" by (cases l)
  have m: "map fst (map (\<lambda>(d, n). ((w, d), n)) es) = map (Pair w) (map fst es)"
    by (induction es) auto
  have d1: "distinct (map fst (map (\<lambda>(d, n). ((w, d), n)) es))"
    unfolding m using Cons.prems(2) l by (simp add: distinct_map inj_on_def)
  have d2: "distinct (map fst (kvs_of L))" using Cons by simp
  have s2: "fst k \<in> fst ` set L" if "k \<in> set (map fst (kvs_of L))" for k
    using that by (force simp: kvs_of_def)
  have "w \<notin> fst ` set L" using Cons.prems(1) l by simp
  then have dis: "set (map fst (map (\<lambda>(d, n). ((w, d), n)) es)) \<inter> set (map fst (kvs_of L)) = {}"
    unfolding m using s2 by fastforce
  have "kvs_of (l # L) = map (\<lambda>(d, n). ((w, d), n)) es @ kvs_of L"
    by (simp add: kvs_of_def l)
  then show ?case using d1 d2 dis by simp
qed

subsection \<open>The index file: round trip\<close>

text \<open>
  Building an index as the indexer does: \<^verbatim>\<open>index_new(500)\<close> (the indexer exits if that
  fails), then one \<^verbatim>\<open>index_insert\<close> per (word, document) occurrence.
\<close>

definition insert_all :: "(string \<times> int) list \<Rightarrow> index \<times> store \<Rightarrow> index \<times> store" where
  "insert_all ops st = foldl (\<lambda>(i, h) (w, d). index_insert i w d h) st ops"

definition index_build :: "(string \<times> int) list \<Rightarrow> (index \<times> store) option" where
  "index_build ops =
     (case index_new 500 of
        None \<Rightarrow> None
      | Some index \<Rightarrow> Some (insert_all ops (index, empty_store)))"

lemma index_build_eq: "index_build ops = Some (insert_all ops ([], empty_store))"
  by (simp add: index_build_def index_new_def hashtable_new_def)

text \<open>
  What holds of an index under construction: the words are in \<open>W\<close>, the document numbers
  are \<^verbatim>\<open>int\<close>s that are not negative, and no count exceeds the number \<open>N\<close> of insertions.
\<close>

definition built_ok :: "string set \<Rightarrow> int \<Rightarrow> index \<times> store \<Rightarrow> bool" where
  "built_ok W N st =
     (state_ok st \<and> distinct (map fst (fst st))
      \<and> (\<forall>(w, p)\<in>set (fst st). w \<in> W
            \<and> (\<exists>c. cells (snd st) p = Some c \<and> distinct (map fst c)
                    \<and> (\<forall>(d, n)\<in>set c. nonneg_int d \<and> 0 \<le> n \<and> n \<le> N))))"

lemma built_ok_mono: "built_ok W N st \<Longrightarrow> N \<le> N' \<Longrightarrow> built_ok W N' st"
  unfolding built_ok_def by fastforce

lemma dc_increment_ok:
  assumes "distinct (map fst c)" "\<forall>(d, n)\<in>set c. nonneg_int d \<and> 0 \<le> n \<and> n \<le> N"
    "nonneg_int k" "0 \<le> N"
  shows "distinct (map fst (dc_increment c k))
         \<and> (\<forall>(d, n)\<in>set (dc_increment c k). nonneg_int d \<and> 0 \<le> n \<and> n \<le> N + 1)"
proof -
  let ?v = "case map_of c k of None \<Rightarrow> 1 | Some n \<Rightarrow> n + 1"
  have "0 \<le> ?v \<and> ?v \<le> N + 1"
    using assms(2,4) by (auto split: option.splits dest!: map_of_SomeD)
  moreover have "\<forall>(d, n)\<in>set c. nonneg_int d \<and> 0 \<le> n \<and> n \<le> N + 1"
    using assms(2) by fastforce
  ultimately show ?thesis
    unfolding dc_increment_def
    using assms(1,3) set_update_subset[of k ?v c] by (auto simp: distinct_update)
qed

lemma index_insert_built:
  assumes "built_ok W N (i, h)" "w \<in> W" "d \<le> INT_MAX" "0 \<le> N"
  shows "built_ok W (N + 1) (index_insert i w d h)"
proof (cases "d < 0")
  case True
  then show ?thesis using built_ok_mono[OF assms(1), of "N + 1"] by (simp add: index_insert_def)
next
  case False
  then have d: "nonneg_int d" using assms(3) by (simp add: nonneg_int_def)
  note up = built_ok_mono[OF assms(1), of "N + 1"]
  show ?thesis
  proof (cases "hashtable_find i w")
    case None
    let ?h = "h\<lparr>cells := (cells h)(nxt h \<mapsto> [(d, 1)]), nxt := Suc (nxt h)\<rparr>"
    have s: "index_insert i w d h = (i @ [(w, nxt h)], ?h)"
      using None False
      by (simp add: index_insert_def counters_new_def hashtable_insert_def hashtable_find_def
          counters_add_def dc_increment_def)
    have fresh: "nxt h \<notin> snd ` set i" using assms(1) by (auto simp: built_ok_def state_ok_def)
    have nw: "w \<notin> fst ` set i" using None by (simp add: hashtable_find_def map_of_eq_None_iff)
    show ?thesis
      unfolding s using up assms(2,4) fresh nw d
      by (auto simp: built_ok_def state_ok_def)
  next
    case (Some p)
    have mem: "(w, p) \<in> set i" using Some by (auto simp: hashtable_find_def dest: map_of_SomeD)
    then obtain c where c: "cells h p = Some c" "distinct (map fst c)"
      "\<forall>(d, n)\<in>set c. nonneg_int d \<and> 0 \<le> n \<and> n \<le> N"
      using assms(1) by (auto simp: built_ok_def)
    let ?h = "h\<lparr>cells := (cells h)(p \<mapsto> dc_increment c d)\<rparr>"
    have s: "index_insert i w d h = (i, ?h)"
      using Some False c(1) by (simp add: index_insert_def counters_add_def)
    note inc = dc_increment_ok[OF c(2,3) d assms(4)]
    show ?thesis
      unfolding s using up inc
      by (auto simp: built_ok_def state_ok_def)
  qed
qed

lemma built_ok_empty: "built_ok W 0 ([], empty_store)"
  by (simp add: built_ok_def state_ok_def)

lemma insert_all_built:
  assumes "\<forall>(w, d)\<in>set ops. w \<in> W \<and> d \<le> INT_MAX"
  shows "built_ok W (int (length ops)) (insert_all ops ([], empty_store))"
proof -
  have "built_ok W N st \<Longrightarrow> 0 \<le> N \<Longrightarrow> \<forall>(w, d)\<in>set ops. w \<in> W \<and> d \<le> INT_MAX \<Longrightarrow>
        built_ok W (N + int (length ops)) (foldl (\<lambda>(i, h) (w, d). index_insert i w d h) st ops)"
    for st N
  proof (induction ops arbitrary: st N)
    case Nil
    then show ?case by simp
  next
    case (Cons x ops)
    obtain w d where x: "x = (w, d)" by (cases x)
    obtain i h where st: "st = (i, h)" by (cases st)
    have "built_ok W (N + 1) (index_insert i w d h)"
      using index_insert_built[of W N i h w d] Cons.prems x st by simp
    from Cons.IH[OF this] Cons.prems(2,3)
    have "built_ok W (N + 1 + int (length ops))
            (foldl (\<lambda>(i, h) (w, d). index_insert i w d h) (index_insert i w d h) ops)"
      by simp
    moreover have "N + 1 + int (length ops) = N + int (length (x # ops))" by simp
    ultimately show ?case using x st by simp
  qed
  from this[OF built_ok_empty _ assms] show ?thesis by (simp add: insert_all_def)
qed

text \<open>The index is empty exactly when no insertion had a document number from 0 on.\<close>

lemma index_insert_nonempty:
  "fst (index_insert i w d h) \<noteq> [] \<longleftrightarrow> i \<noteq> [] \<or> 0 \<le> d"
  by (auto simp: index_insert_def hashtable_find_def hashtable_insert_def counters_new_def
      split: option.splits prod.splits)

lemma insert_all_nonempty:
  "fst (insert_all ops st) \<noteq> [] \<longleftrightarrow> fst st \<noteq> [] \<or> (\<exists>(w, d)\<in>set ops. 0 \<le> d)"
proof (induction ops arbitrary: st)
  case Nil
  show ?case by (simp add: insert_all_def)
next
  case (Cons x ops)
  obtain w d where x: "x = (w, d)" by (cases x)
  obtain i h where st: "st = (i, h)" by (cases st)
  have "insert_all (x # ops) st = insert_all ops (index_insert i w d h)"
    by (simp add: insert_all_def x st)
  then show ?case
    using Cons.IH[of "index_insert i w d h"] index_insert_nonempty[of i w d h] x st by auto
qed

lemma insert_all_refused:
  "\<forall>(w, d)\<in>set ops. d < 0 \<Longrightarrow> insert_all ops st = st"
proof (induction ops)
  case Nil
  show ?case by (simp add: insert_all_def)
next
  case (Cons x ops)
  obtain w d where x: "x = (w, d)" by (cases x)
  obtain i h where st: "st = (i, h)" by (cases st)
  have "index_insert i w d h = (i, h)" using Cons.prems x by (simp add: index_insert_def)
  then show ?case using Cons x st by (simp add: insert_all_def)
qed

text \<open>\<^verbatim>\<open>index_load\<close> gets an index from \<^verbatim>\<open>index_new\<close> exactly when the file has a newline.\<close>

lemma file_numLines_pos: "CHR 0x0A \<in> set fp \<Longrightarrow> 0 < file_numLines fp"
  by (auto simp: file_numLines_def filter_empty_conv)

lemma index_load_newline: "CHR 0x0A \<in> set fp \<Longrightarrow> index_load fp h = load_words [] fp h"
  using file_numLines_pos[of fp] by (simp add: index_load_def index_new_def hashtable_new_def)

lemma index_load_no_newline: "file_numLines fp = 0 \<Longrightarrow> index_load fp h = Inl MemAssertExit"
  by (simp add: index_load_def index_new_def hashtable_new_def)

lemma lines_text_newline: "L \<noteq> [] \<Longrightarrow> CHR 0x0A \<in> set (lines_text L)"
  by (cases L) (auto simp: lines_text_def line_text_def)

lemma load_saved:
  assumes "built_ok {w. normalized_word w \<and> length w < 256} INT_MAX (index, h)" "index \<noteq> []"
  shows "\<exists>index' h'. index_load (fst (index_save index [] h)) h0 = Inr (index', h')
           \<and> (index', h') = set_kvs (kvs_of (contents index h)) ([], h0)"
proof -
  let ?L = "contents index h"
  have dk: "\<forall>(w, p)\<in>set index. distinct (map fst (entries (Some p) h))"
    using assms by (auto simp: built_ok_def entries_def)
  have sv: "index_save index [] h = (lines_text ?L, h)"
    using index_save_text[OF dk, of "[]"] by simp
  have lo: "\<forall>l\<in>set ?L. line_ok l"
  proof
    fix l assume "l \<in> set ?L"
    then obtain w p where wp: "(w, p) \<in> set index" "l = (w, entries (Some p) h)"
      by (auto simp: contents_def)
    from assms(1) wp(1) obtain c where c: "normalized_word w" "length w < 256" "cells h p = Some c"
      "\<forall>(d, n)\<in>set c. nonneg_int d \<and> 0 \<le> n \<and> n \<le> INT_MAX"
      by (auto simp: built_ok_def)
    have "\<forall>(d, n)\<in>set c. nonneg_int d \<and> nonneg_int n"
      using c(4) by (auto simp: nonneg_int_def)
    then show "line_ok l" using wp(2) c(1-3) by (simp add: line_ok_def entries_def)
  qed
  have ne: "?L \<noteq> []" using assms(2) by (simp add: contents_def)
  have "index_load (lines_text ?L) h0 = Inr (set_lines ?L ([], h0))"
    unfolding index_load_newline[OF lines_text_newline[OF ne]] by (rule load_words_lines[OF lo])
  then show ?thesis
    unfolding sv by (cases "set_kvs (kvs_of ?L) ([], h0)") (simp add: set_lines_kvs)
qed

lemma count_of_contents:
  assumes "distinct (map fst index)"
  shows "count_of (index, h) w d
         = (case map_of (kvs_of (contents index h)) (w, d) of None \<Rightarrow> 0 | Some n \<Rightarrow> n)"
proof -
  have dc: "distinct (map fst (contents index h))"
    using assms by (simp add: contents_def comp_def case_prod_beta)
  have m: "map_of (contents index h) w = map_option (\<lambda>p. entries (Some p) h) (map_of index w)"
    unfolding contents_def by (induction index) auto
  show ?thesis
    unfolding map_of_kvs_of[OF dc] m
    by (auto simp: count_of_def index_find_def hashtable_find_def counters_get_def dc_get_def
        entries_def split: option.splits)
qed

lemma round_trip_built:
  assumes "built_ok {w. normalized_word w \<and> length w < 256} INT_MAX (index, h)" "index \<noteq> []"
  shows "\<exists>index' h'. index_load (fst (index_save index [] h)) empty_store = Inr (index', h')
           \<and> (\<forall>w d. counters_get (index_find index' w) d h' = counters_get (index_find index w) d h)"
proof -
  let ?K = "kvs_of (contents index h)"
  from load_saved[OF assms, of empty_store] obtain index' h' where
    l: "index_load (fst (index_save index [] h)) empty_store = Inr (index', h')"
    and e: "(index', h') = set_kvs ?K ([], empty_store)" by blast
  have ok0: "state_ok ([], empty_store)" by (simp add: state_ok_def)
  have dw: "distinct (map fst index)" using assms by (simp add: built_ok_def)
  have dL: "distinct (map fst (contents index h))"
    using dw by (simp add: contents_def comp_def case_prod_beta)
  have dE: "\<forall>(w, es)\<in>set (contents index h). distinct (map fst es)"
    using assms by (auto simp: built_ok_def contents_def entries_def)
  have dK: "distinct (map fst ?K)" by (rule distinct_kvs_of[OF dL dE])
  have nn: "\<forall>((w, d), n)\<in>set ?K. 0 \<le> d \<and> 0 \<le> n"
    using assms(1) by (fastforce simp: built_ok_def contents_def kvs_of_def entries_def nonneg_int_def)
  have z: "count_of ([], empty_store) w d = 0" for w d
    by (simp add: count_of_def index_find_def hashtable_find_def counters_get_def
        entries_def dc_get_def)
  have "count_of (index', h') w d = count_of (index, h) w d" for w d
    unfolding e count_of_contents[OF dw]
    using set_kvs_effect[OF ok0 nn dK] by (simp add: z cong: option.case_cong)
  then have "\<forall>w d. counters_get (index_find index' w) d h' = counters_get (index_find index w) d h"
    by (simp add: count_of_def)
  with l show ?thesis by blast
qed

lemma index_round_trip:
  assumes "\<forall>(w, d)\<in>set ops. normalized_word w \<and> length w < 256 \<and> d \<le> INT_MAX"
    and "\<exists>(w, d)\<in>set ops. 0 \<le> d" "int (length ops) \<le> INT_MAX"
    and "insert_all ops ([], empty_store) = (index, h)"
  shows "\<exists>index' h'. index_load (fst (index_save index [] h)) empty_store = Inr (index', h')
           \<and> (\<forall>w d. counters_get (index_find index' w) d h' = counters_get (index_find index w) d h)"
proof -
  have pre: "\<forall>(w, d)\<in>set ops. w \<in> {w. normalized_word w \<and> length w < 256} \<and> d \<le> INT_MAX"
    using assms(1) by auto
  have b0: "built_ok {w. normalized_word w \<and> length w < 256} (int (length ops))
          (insert_all ops ([], empty_store))"
    by (rule insert_all_built[OF pre])
  have b: "built_ok {w. normalized_word w \<and> length w < 256} INT_MAX (index, h)"
    using built_ok_mono[OF b0 assms(3)] assms(4) by simp
  have "index \<noteq> []"
    using insert_all_nonempty[of ops "([], empty_store)"] assms(2,4) by simp
  with b show ?thesis by (rule round_trip_built)
qed

lemma load_words_overrun:
  assumes "normalized_word w" "256 \<le> length w" "isspace c"
  shows "load_words index (w @ c # rest) h = Inl WordBufferOverrun"
  using scan_s_word[OF assms(1,3), of rest] assms(2)
  by (subst load_words.simps) simp

lemma index_save_single:
  "index_save [(w, 0)] [] \<lparr>cells = (\<lambda>a. None)(0 \<mapsto> [(d, n)]), nxt = 1\<rparr>
   = (line_text w [(d, n)], \<lparr>cells = (\<lambda>a. None)(0 \<mapsto> [(d, n)]), nxt = 1\<rparr>)"
proof -
  let ?h = "\<lparr>cells = (\<lambda>a. None)(0 \<mapsto> [(d, n)]), nxt = 1\<rparr>"
  have "\<forall>(w, p)\<in>set [(w, 0)]. distinct (map fst (entries (Some p) ?h))"
    by (simp add: entries_def)
  from index_save_text[OF this, of "[]"] show ?thesis
    by (simp add: contents_def lines_text_def entries_def)
qed

lemma insert_all_single:
  "0 \<le> d \<Longrightarrow>
   insert_all [(w, d)] ([], empty_store) = ([(w, 0)], \<lparr>cells = (\<lambda>a. None)(0 \<mapsto> [(d, 1)]), nxt = 1\<rparr>)"
  by (simp add: insert_all_def index_insert_def hashtable_find_def
      counters_new_def empty_store_def hashtable_insert_def counters_add_def dc_increment_def)

lemma overrun_after_save:
  assumes "normalized_word w" "256 \<le> length w" "0 \<le> d"
  shows "index_load (fst (index_save [(w, 0)] [] \<lparr>cells = (\<lambda>a. None)(0 \<mapsto> [(d, 1)]), nxt = 1\<rparr>))
           empty_store
         = Inl WordBufferOverrun"
proof -
  have t: "line_text w [(d, 1)] = w @ CHR '' '' # (printf_d d @ '' '' @ printf_d 1 @ [CHR 0x0A])"
    by (simp add: line_text_def pairs_text_def pair_text_def)
  have n: "CHR 0x0A \<in> set (line_text w [(d, 1)])" by (simp add: line_text_def)
  have "load_words [] (line_text w [(d, 1)]) empty_store = Inl WordBufferOverrun"
    unfolding t by (rule load_words_overrun[OF assms(1,2)]) (simp add: isspace_def)
  then show ?thesis
    unfolding index_save_single fst_conv index_load_newline[OF n] .
qed

lemma normalized_replicate: "0 < n \<Longrightarrow> normalized_word (replicate n CHR ''a'')"
  by (simp add: normalized_word_def islower_def)

lemma load_set_twice:
  assumes "normalized_word w" "length w < 256" "nonneg_int d" "nonneg_int n1" "nonneg_int n2"
  shows "\<exists>index' h'. index_load (w @ '' '' @ printf_d d @ '' '' @ printf_d n1
                                    @ '' '' @ printf_d d @ '' '' @ printf_d n2 @ [CHR 0x0A]) empty_store
                      = Inr (index', h')
           \<and> counters_get (index_find index' w) d h' = n2"
proof -
  let ?L = "[(w, [(d, n1), (d, n2)])]"
  have t: "w @ '' '' @ printf_d d @ '' '' @ printf_d n1 @ '' '' @ printf_d d @ '' '' @ printf_d n2 @ [CHR 0x0A]
           = lines_text ?L"
    by (simp add: lines_text_def line_text_def pairs_text_def pair_text_def)
  have lo: "\<forall>l\<in>set ?L. line_ok l" using assms by (simp add: line_ok_def)
  have nl: "CHR 0x0A \<in> set (lines_text ?L)" by (rule lines_text_newline) simp
  have l: "index_load (lines_text ?L) empty_store = Inr (set_lines ?L ([], empty_store))"
    unfolding index_load_newline[OF nl] by (rule load_words_lines[OF lo])
  have nn: "0 \<le> d" "0 \<le> n1" "0 \<le> n2" using assms(3-5) by (simp_all add: nonneg_int_def)
  have ok0: "state_ok ([], empty_store)" by (simp add: state_ok_def)
  let ?s1 = "index_set [] w d n1 empty_store"
  have e1: "state_ok ?s1" using index_set_effect[OF ok0 nn(1,2)] by simp
  obtain i1 h1 where s1: "?s1 = (i1, h1)" by (cases ?s1)
  have e2: "count_of (index_set i1 w d n2 h1) w d = n2"
    using index_set_effect[OF _ nn(1,3), of i1 h1 w] e1 s1 by simp
  have "set_lines ?L ([], empty_store) = index_set i1 w d n2 h1"
    by (simp add: set_lines_def set_all_def s1)
  then show ?thesis
    unfolding t l using e2
    by (cases "index_set i1 w d n2 h1") (simp add: count_of_def)
qed

lemma empty_index_exits:
  "index_load (fst (index_save [] [] h)) h0 = Inl MemAssertExit"
  by (simp add: index_save_def index_load_no_newline file_numLines_def)

text \<open>
  Claim C1. For every index built by \<^verbatim>\<open>index_insert\<close> from normalized words of fewer than
  256 characters, with at least one insertion that \<^verbatim>\<open>index_insert\<close> accepts (a document
  number from 0 on) and fewer than 2^31 insertions (so that the counts are \<^verbatim>\<open>int\<close>s),
  \<^verbatim>\<open>index_load\<close> of what \<^verbatim>\<open>index_save\<close> wrote returns an index that gives every word and
  document the count the original gives. \<^verbatim>\<open>index_load\<close> installs each triple with
  \<^verbatim>\<open>index_set\<close>: when a file names a (word, document) twice, the later count stands, not the
  sum. The round trip fails in two cases. For a normalized word of 256 characters or more
  \<^verbatim>\<open>index_load\<close> reads the word with \<^verbatim>\<open>fscanf(fp, "%s", word)\<close> into \<^verbatim>\<open>char word[256]\<close> and writes
  past the end of the buffer, which is undefined behaviour. For an index without a word
  (nothing was inserted, or only negative document numbers) \<^verbatim>\<open>index_save\<close> writes an empty
  file, \<^verbatim>\<open>index_load\<close> calls \<^verbatim>\<open>index_new(0)\<close>, gets \<^verbatim>\<open>NULL\<close>, and exits through \<^verbatim>\<open>mem_assert\<close>.
\<close>

theorem index_round_trip_up_to_buffer:
  "((\<forall>(w, d)\<in>set ops. normalized_word w \<and> length w < 256 \<and> d \<le> INT_MAX)
      \<and> (\<exists>(w, d)\<in>set ops. 0 \<le> d) \<and> int (length ops) \<le> INT_MAX \<longrightarrow>
      (case index_build ops of
         None \<Rightarrow> False
       | Some (index, h) \<Rightarrow>
           (\<exists>index' h'. index_load (fst (index_save index [] h)) empty_store = Inr (index', h')
               \<and> (\<forall>w d. counters_get (index_find index' w) d h'
                         = counters_get (index_find index w) d h))))
   \<and> (normalized_word w \<and> length w < 256 \<and> 0 \<le> d \<and> d \<le> INT_MAX
        \<and> 0 \<le> n1 \<and> n1 \<le> INT_MAX \<and> 0 \<le> n2 \<and> n2 \<le> INT_MAX \<longrightarrow>
        (\<exists>index' h'. index_load (w @ '' '' @ printf_d d @ '' '' @ printf_d n1
                                    @ '' '' @ printf_d d @ '' '' @ printf_d n2 @ [CHR 0x0A]) empty_store
                      = Inr (index', h')
           \<and> counters_get (index_find index' w) d h' = n2))
   \<and> (normalized_word wl \<and> 256 \<le> length wl \<and> 0 \<le> dl \<longrightarrow>
        (case index_build [(wl, dl)] of
           None \<Rightarrow> False
         | Some (index, h) \<Rightarrow>
             index_load (fst (index_save index [] h)) empty_store = Inl WordBufferOverrun))
   \<and> ((\<forall>(w, d)\<in>set ops0. d < 0) \<longrightarrow>
        (case index_build ops0 of
           None \<Rightarrow> False
         | Some (index, h) \<Rightarrow>
             index = [] \<and> index_load (fst (index_save index [] h)) empty_store = Inl MemAssertExit))"
proof (intro conjI impI)
  assume a: "(\<forall>(w, d)\<in>set ops. normalized_word w \<and> length w < 256 \<and> d \<le> INT_MAX)
      \<and> (\<exists>(w, d)\<in>set ops. 0 \<le> d) \<and> int (length ops) \<le> INT_MAX"
  obtain index h where b: "insert_all ops ([], empty_store) = (index, h)"
    by (cases "insert_all ops ([], empty_store)")
  from a have a1: "\<forall>(w, d)\<in>set ops. normalized_word w \<and> length w < 256 \<and> d \<le> INT_MAX"
    and a2: "\<exists>(w, d)\<in>set ops. 0 \<le> d" and a3: "int (length ops) \<le> INT_MAX" by simp_all
  from index_round_trip[OF a1 a2 a3 b]
  show "case index_build ops of
         None \<Rightarrow> False
       | Some (index, h) \<Rightarrow>
           (\<exists>index' h'. index_load (fst (index_save index [] h)) empty_store = Inr (index', h')
               \<and> (\<forall>w d. counters_get (index_find index' w) d h'
                         = counters_get (index_find index w) d h))"
    by (simp add: index_build_eq b)
next
  assume "normalized_word w \<and> length w < 256 \<and> 0 \<le> d \<and> d \<le> INT_MAX
        \<and> 0 \<le> n1 \<and> n1 \<le> INT_MAX \<and> 0 \<le> n2 \<and> n2 \<le> INT_MAX"
  then have "normalized_word w" "length w < 256" "nonneg_int d" "nonneg_int n1" "nonneg_int n2"
    by (simp_all add: nonneg_int_def)
  then show "\<exists>index' h'. index_load (w @ '' '' @ printf_d d @ '' '' @ printf_d n1
                                    @ '' '' @ printf_d d @ '' '' @ printf_d n2 @ [CHR 0x0A]) empty_store
                      = Inr (index', h')
           \<and> counters_get (index_find index' w) d h' = n2"
    by (rule load_set_twice)
next
  assume a: "normalized_word wl \<and> 256 \<le> length wl \<and> 0 \<le> dl"
  then have "index_load (fst (index_save [(wl, 0)] [] \<lparr>cells = (\<lambda>a. None)(0 \<mapsto> [(dl, 1)]), nxt = 1\<rparr>))
           empty_store
         = Inl WordBufferOverrun"
    by (intro overrun_after_save) simp_all
  then show "case index_build [(wl, dl)] of
           None \<Rightarrow> False
         | Some (index, h) \<Rightarrow>
             index_load (fst (index_save index [] h)) empty_store = Inl WordBufferOverrun"
    using a by (simp add: index_build_eq insert_all_single)
next
  assume "\<forall>(w, d)\<in>set ops0. d < 0"
  then have "insert_all ops0 ([], empty_store) = ([], empty_store)" by (rule insert_all_refused)
  then show "case index_build ops0 of
           None \<Rightarrow> False
         | Some (index, h) \<Rightarrow>
             index = [] \<and> index_load (fst (index_save index [] h)) empty_store = Inl MemAssertExit"
    by (simp add: index_build_eq empty_index_exits)
qed

theorem index_round_trip_up_to_buffer_witness:
  "(case index_build [(''dog'', 1), (''cat'', 2), (''dog'', 1), (''dog'', 3)] of
      None \<Rightarrow> False
    | Some (index, h) \<Rightarrow>
        (\<exists>index' h'. index_load (fst (index_save index [] h)) empty_store = Inr (index', h')
            \<and> (\<forall>w d. counters_get (index_find index' w) d h'
                      = counters_get (index_find index w) d h)))
   \<and> (\<exists>index' h'. index_load (''dog'' @ '' '' @ printf_d 1 @ '' '' @ printf_d 2
                                    @ '' '' @ printf_d 1 @ '' '' @ printf_d 5 @ [CHR 0x0A]) empty_store
                      = Inr (index', h')
           \<and> counters_get (index_find index' ''dog'') 1 h' = 5)
   \<and> (case index_build [(replicate 280 CHR ''a'', 1)] of
        None \<Rightarrow> False
      | Some (index, h) \<Rightarrow>
          index_load (fst (index_save index [] h)) empty_store = Inl WordBufferOverrun)
   \<and> (case index_build [(''dog'', - 1)] of
        None \<Rightarrow> False
      | Some (index, h) \<Rightarrow>
          index = [] \<and> index_load (fst (index_save index [] h)) empty_store = Inl MemAssertExit)"
proof -
  have n: "normalized_word ''dog''" "normalized_word ''cat''"
    by (simp_all add: normalized_word_def islower_def)
  have h1: "(\<forall>(w, d)\<in>set [(''dog'', 1), (''cat'', 2), (''dog'', 1), (''dog'', 3 :: int)].
              normalized_word w \<and> length w < 256 \<and> d \<le> INT_MAX)
            \<and> (\<exists>(w, d)\<in>set [(''dog'', 1), (''cat'', 2), (''dog'', 1), (''dog'', 3 :: int)]. 0 \<le> d)
            \<and> int (length [(''dog'', 1), (''cat'', 2), (''dog'', 1), (''dog'', 3 :: int)]) \<le> INT_MAX"
    using n by (simp add: INT_MAX_def)
  have h2: "normalized_word ''dog'' \<and> length ''dog'' < 256 \<and> (0::int) \<le> 1 \<and> (1::int) \<le> INT_MAX
            \<and> (0::int) \<le> 2 \<and> (2::int) \<le> INT_MAX \<and> (0::int) \<le> 5 \<and> (5::int) \<le> INT_MAX"
    using n by (simp add: INT_MAX_def)
  have h3: "normalized_word (replicate 280 CHR ''a'') \<and> 256 \<le> length (replicate 280 CHR ''a'')
            \<and> (0::int) \<le> 1"
    using normalized_replicate[of 280] by simp
  have h4: "\<forall>(w, d)\<in>set [(''dog'', - 1 :: int)]. d < 0" by simp
  note t = index_round_trip_up_to_buffer[of "[(''dog'', 1), (''cat'', 2), (''dog'', 1), (''dog'', 3)]"
      "''dog''" 1 2 5 "replicate 280 CHR ''a''" 1 "[(''dog'', - 1)]"]
  from t[THEN conjunct1, THEN mp, OF h1]
    t[THEN conjunct2, THEN conjunct1, THEN mp, OF h2]
    t[THEN conjunct2, THEN conjunct2, THEN conjunct1, THEN mp, OF h3]
    t[THEN conjunct2, THEN conjunct2, THEN conjunct2, THEN mp, OF h4]
  show ?thesis by (intro conjI)
qed

subsection \<open>The index file: malformed input\<close>















end
